theory Spec2Isabelle
  imports Main
begin

section \<open>The broadcast queue and its views (utils/synchronized_multi_queue.h)\<close>

text \<open>
  Objects live at addresses. A \<open>View\<close> holds a weak pointer to its queue and an index;
  the queue holds raw pointers to the views registered with it. Both directions of this
  aliasing matter, so the model is an explicit store: one map for the queues that are
  alive and one for the views that are alive. A queue identity is never handed out twice
  (\<open>next_queue\<close>), so a weak pointer to a destroyed queue stays expired.

  \<open>std::size_t\<close> is taken as 64 bits. Indices and counts are naturals; the decrement
  wraps at zero as the unsigned decrement does. An index is only ever incremented while it
  differs from the length of the deque, so the increment is written without wrap-around.

  The model is sequential: the mutex is not modelled, and a wait whose condition is false
  is the outcome \<open>Blocked\<close> (no other thread will make it true).
\<close>

type_synonym view_ptr = nat
type_synonym queue_ptr = nat

datatype failure =
    DanglingView   \<comment> \<open>the \<open>std::runtime_error\<close> thrown by a view whose queue is gone\<close>
  | OutOfRange     \<comment> \<open>\<open>std::out_of_range\<close> from \<open>deque::at\<close>\<close>
  | Undefined      \<comment> \<open>undefined behaviour: an iterator past the end, a dead object\<close>
  | Blocked        \<comment> \<open>\<open>pop\<close> waits for an element that no one will push\<close>

record 'a Queue =
  m_impl :: "'a list"
  m_referenceCounter :: "nat list"
  m_views :: "view_ptr set"

record View =
  m_queue :: "queue_ptr option"
  m_idx :: nat

record 'a heap =
  queues :: "queue_ptr \<rightharpoonup> 'a Queue"
  views :: "view_ptr \<rightharpoonup> View"
  next_queue :: queue_ptr

text \<open>The members of \<open>Consumer<In[]>\<close> (dataflow/Consumer.h).\<close>

record 'a bus_consumer =
  m_inputPipes :: "view_ptr list"
  m_inputs :: "'a list"

definition SIZE_MAX :: nat where
  "SIZE_MAX = 2 ^ 64 - 1"

definition dec_size_t :: "nat \<Rightarrow> nat" where
  "dec_size_t n = (if n = 0 then SIZE_MAX else n - 1)"

definition empty_Queue :: "'a Queue" where
  "empty_Queue = \<lparr>m_impl = [], m_referenceCounter = [], m_views = {}\<rparr>"

text \<open>\<open>SynchronizationMultiQueue::make\<close>: a new queue behind a shared pointer.\<close>

definition make :: "'a heap \<Rightarrow> queue_ptr \<times> 'a heap" where
  "make h = (next_queue h,
     h\<lparr>queues := (queues h)(next_queue h \<mapsto> empty_Queue), next_queue := Suc (next_queue h)\<rparr>)"

text \<open>The last shared pointer to the queue is released.\<close>

definition destroy_queue :: "queue_ptr \<Rightarrow> 'a heap \<Rightarrow> 'a heap" where
  "destroy_queue q h = h\<lparr>queues := (queues h)(q := None)\<rparr>"

text \<open>
  \<open>push\<close>, with \<open>stalenessThreshold = 0\<close>: the test \<open>m_impl.size() >= 0\<close> is always true
  and the \<open>else\<close> branch of the \<open>if constexpr\<close> is not compiled.
\<close>

definition push :: "'a \<Rightarrow> 'a Queue \<Rightarrow> 'a Queue" where
  "push val Q =
     (if m_views Q = {} \<and> length (m_impl Q) \<ge> 0 then Q
      else Q\<lparr>m_impl := m_impl Q @ [val],
             m_referenceCounter := m_referenceCounter Q @ [card (m_views Q)]\<rparr>)"

definition registerView :: "view_ptr \<Rightarrow> 'a Queue \<Rightarrow> 'a Queue" where
  "registerView v Q = Q\<lparr>m_views := insert v (m_views Q)\<rparr>"

definition swapView :: "view_ptr \<Rightarrow> view_ptr \<Rightarrow> 'a Queue \<Rightarrow> 'a Queue" where
  "swapView oldView newView Q = Q\<lparr>m_views := insert newView (m_views Q) - {oldView}\<rparr>"

text \<open>A method of the queue object at \<open>q\<close>; calling it on a destroyed queue is undefined.\<close>

definition on_queue :: "queue_ptr \<Rightarrow> ('a Queue \<Rightarrow> 'a Queue) \<Rightarrow> 'a heap \<Rightarrow> failure + 'a heap" where
  "on_queue q f h =
     (case queues h q of
        None \<Rightarrow> Inl Undefined
      | Some Q \<Rightarrow> Inr (h\<lparr>queues := (queues h)(q \<mapsto> f Q)\<rparr>))"

text \<open>
  \<open>decreaseReferenceCount\<close>. When the decremented count is zero the front slot is popped,
  whatever \<open>idx\<close> is, and the index of every registered view is decremented through its
  pointer; a pointer to a view that is no longer alive makes that undefined.
\<close>

definition decreaseReferenceCount :: "queue_ptr \<Rightarrow> nat \<Rightarrow> 'a heap \<Rightarrow> failure + 'a heap" where
  "decreaseReferenceCount q idx h =
     (case queues h q of
        None \<Rightarrow> Inl Undefined
      | Some Q \<Rightarrow>
          if idx \<ge> length (m_referenceCounter Q) then Inl OutOfRange
          else
            let c = dec_size_t (m_referenceCounter Q ! idx);
                cs = (m_referenceCounter Q)[idx := c]
            in if c = 0 then
                 (if m_impl Q = [] then Inl Undefined
                  else if \<exists>w \<in> m_views Q. views h w = None then Inl Undefined
                  else Inr (h\<lparr>queues := (queues h)(q \<mapsto>
                                 Q\<lparr>m_impl := tl (m_impl Q), m_referenceCounter := tl cs\<rparr>),
                              views := (\<lambda>w. if w \<in> m_views Q
                                 then map_option (\<lambda>W. W\<lparr>m_idx := dec_size_t (m_idx W)\<rparr>) (views h w)
                                 else views h w)\<rparr>))
               else Inr (h\<lparr>queues := (queues h)(q \<mapsto> Q\<lparr>m_referenceCounter := cs\<rparr>)\<rparr>))"

text \<open>The loop of \<open>unregisterView\<close>: \<open>while (view.m_idx != m_impl.size())\<close>.\<close>

function unregisterView_loop :: "queue_ptr \<Rightarrow> view_ptr \<Rightarrow> 'a heap \<Rightarrow> failure + 'a heap" where
  "unregisterView_loop q v h =
     (case queues h q of
        None \<Rightarrow> Inl Undefined
      | Some Q \<Rightarrow>
         (case views h v of
            None \<Rightarrow> Inl Undefined
          | Some V \<Rightarrow>
              if m_idx V \<noteq> length (m_impl Q) then
                (case decreaseReferenceCount q (m_idx V)
                        (h\<lparr>views := (views h)(v \<mapsto> V\<lparr>m_idx := m_idx V + 1\<rparr>)\<rparr>) of
                   Inl e \<Rightarrow> Inl e
                 | Inr h' \<Rightarrow> unregisterView_loop q v h')
              else Inr h))"
  by pat_completeness auto

termination
  by (relation "measure (\<lambda>(q, v, h).
        case queues h q of
          None \<Rightarrow> 0
        | Some Q \<Rightarrow> (case views h v of
                       None \<Rightarrow> 0
                     | Some V \<Rightarrow> length (m_referenceCounter Q) - m_idx V))")
     (auto simp: decreaseReferenceCount_def dec_size_t_def Let_def
           split: option.splits if_splits)

declare unregisterView_loop.simps [simp del]

text \<open>\<open>unregisterView\<close>: nothing happens for a view that is not registered.\<close>

definition unregisterView :: "queue_ptr \<Rightarrow> view_ptr \<Rightarrow> 'a heap \<Rightarrow> failure + 'a heap" where
  "unregisterView q v h =
     (case queues h q of
        None \<Rightarrow> Inl Undefined
      | Some Q \<Rightarrow>
          if v \<notin> m_views Q then Inr h
          else (case unregisterView_loop q v h of
                  Inl e \<Rightarrow> Inl e
                | Inr h' \<Rightarrow> on_queue q (\<lambda>Q'. Q'\<lparr>m_views := m_views Q' - {v}\<rparr>) h'))"

subsection \<open>Construction, assignment and destruction of views\<close>

text \<open>\<open>m_queue.lock()\<close>: the queue a view points to, when it is still alive.\<close>

definition lock :: "'a heap \<Rightarrow> View \<Rightarrow> (queue_ptr \<times> 'a Queue) option" where
  "lock h V =
     (case m_queue V of
        None \<Rightarrow> None
      | Some q \<Rightarrow> map_option (Pair q) (queues h q))"

text \<open>
  The private constructor \<open>View(Queue&)\<close> and \<open>SynchronizationMultiQueue::view()\<close>, which
  returns its result in place, at the address \<open>v\<close> the caller provides.
\<close>

definition View_of_Queue :: "queue_ptr \<Rightarrow> view_ptr \<Rightarrow> 'a heap \<Rightarrow> failure + 'a heap" where
  "View_of_Queue q v h =
     (case queues h q of
        None \<Rightarrow> Inl Undefined
      | Some Q \<Rightarrow>
          on_queue q (registerView v)
            (h\<lparr>views := (views h)(v \<mapsto> \<lparr>m_queue = Some q, m_idx = length (m_impl Q)\<rparr>)\<rparr>))"

definition view :: "queue_ptr \<Rightarrow> view_ptr \<Rightarrow> 'a heap \<Rightarrow> failure + 'a heap" where
  "view q v h = View_of_Queue q v h"

text \<open>\<open>View() = default\<close>.\<close>

definition View_default :: "view_ptr \<Rightarrow> 'a heap \<Rightarrow> 'a heap" where
  "View_default v h = h\<lparr>views := (views h)(v \<mapsto> \<lparr>m_queue = None, m_idx = 0\<rparr>)\<rparr>"

text \<open>
  Two fragments that the special members repeat:
  \<open>if (auto queue = m_queue.lock()) queue->unregisterView(*this);\<close> and
  \<open>if (auto queue = m_queue.lock()) queue->registerView(*this);\<close>.
\<close>

definition unregister_if_locked :: "view_ptr \<Rightarrow> 'a heap \<Rightarrow> failure + 'a heap" where
  "unregister_if_locked v h =
     (case views h v of
        None \<Rightarrow> Inl Undefined
      | Some V \<Rightarrow> (case lock h V of
                     None \<Rightarrow> Inr h
                   | Some (q, Q) \<Rightarrow> unregisterView q v h))"

definition register_if_locked :: "view_ptr \<Rightarrow> 'a heap \<Rightarrow> failure + 'a heap" where
  "register_if_locked v h =
     (case views h v of
        None \<Rightarrow> Inl Undefined
      | Some V \<Rightarrow> (case lock h V of
                     None \<Rightarrow> Inr h
                   | Some (q, Q) \<Rightarrow> on_queue q (registerView v) h))"

text \<open>The copy constructor \<open>View(const View& other)\<close>, constructing at \<open>v\<close>.\<close>

definition View_copy :: "view_ptr \<Rightarrow> view_ptr \<Rightarrow> 'a heap \<Rightarrow> failure + 'a heap" where
  "View_copy v other h =
     (case views h other of
        None \<Rightarrow> Inl Undefined
      | Some W \<Rightarrow>
          register_if_locked v
            (h\<lparr>views := (views h)(v \<mapsto> \<lparr>m_queue = m_queue W, m_idx = m_idx W\<rparr>)\<rparr>))"

text \<open>Copy assignment \<open>operator=(const View& other)\<close> on the view at \<open>v\<close>.\<close>

definition View_copy_assign :: "view_ptr \<Rightarrow> view_ptr \<Rightarrow> 'a heap \<Rightarrow> failure + 'a heap" where
  "View_copy_assign v other h =
     (case unregister_if_locked v h of
        Inl e \<Rightarrow> Inl e
      | Inr h1 \<Rightarrow>
         (case views h1 other of
            None \<Rightarrow> Inl Undefined
          | Some W \<Rightarrow>
              register_if_locked v
                (h1\<lparr>views := (views h1)(v \<mapsto> \<lparr>m_queue = m_queue W, m_idx = m_idx W\<rparr>)\<rparr>)))"

text \<open>
  The move constructor \<open>View(View&& other)\<close>: \<open>other\<close> loses its queue pointer, and the
  registration is swapped.
\<close>

definition View_move :: "view_ptr \<Rightarrow> view_ptr \<Rightarrow> 'a heap \<Rightarrow> failure + 'a heap" where
  "View_move v other h =
     (case views h other of
        None \<Rightarrow> Inl Undefined
      | Some W \<Rightarrow>
          let V = \<lparr>m_queue = m_queue W, m_idx = m_idx W\<rparr>;
              h1 = h\<lparr>views := (views h)(other \<mapsto> W\<lparr>m_queue := None\<rparr>, v \<mapsto> V)\<rparr>
          in (case lock h1 V of
                None \<Rightarrow> Inr h1
              | Some (q, Q) \<Rightarrow> on_queue q (swapView other v) h1))"

text \<open>
  Move assignment \<open>operator=(View&& other)\<close>: \<open>other\<close> loses its queue pointer and this
  view is registered; the queue's set of views is not told about \<open>other\<close>.
\<close>

definition View_move_assign :: "view_ptr \<Rightarrow> view_ptr \<Rightarrow> 'a heap \<Rightarrow> failure + 'a heap" where
  "View_move_assign v other h =
     (case unregister_if_locked v h of
        Inl e \<Rightarrow> Inl e
      | Inr h1 \<Rightarrow>
         (case views h1 other of
            None \<Rightarrow> Inl Undefined
          | Some W \<Rightarrow>
              register_if_locked v
                (h1\<lparr>views := (views h1)(other \<mapsto> W\<lparr>m_queue := None\<rparr>,
                                          v \<mapsto> \<lparr>m_queue = m_queue W, m_idx = m_idx W\<rparr>)\<rparr>)))"

text \<open>The destructor \<open>~View()\<close>; afterwards there is no view at \<open>v\<close>.\<close>

definition View_dtor :: "view_ptr \<Rightarrow> 'a heap \<Rightarrow> failure + 'a heap" where
  "View_dtor v h =
     (case unregister_if_locked v h of
        Inl e \<Rightarrow> Inl e
      | Inr h1 \<Rightarrow> Inr (h1\<lparr>views := (views h1)(v := None)\<rparr>))"

subsection \<open>The operations of a view\<close>

text \<open>
  Iterators into the deque are positions. The private \<open>begin(Queue&)\<close> is
  \<open>std::next(queue.m_impl.begin(), m_idx)\<close>, which is undefined past the end.
\<close>

definition begin_of :: "View \<Rightarrow> 'a Queue \<Rightarrow> failure + nat" where
  "begin_of V Q = (if m_idx V \<le> length (m_impl Q) then Inr (m_idx V) else Inl Undefined)"

definition end_of :: "View \<Rightarrow> 'a Queue \<Rightarrow> nat" where
  "end_of V Q = length (m_impl Q)"

definition View_begin :: "view_ptr \<Rightarrow> 'a heap \<Rightarrow> failure + nat" where
  "View_begin v h =
     (case views h v of
        None \<Rightarrow> Inl Undefined
      | Some V \<Rightarrow> (case lock h V of
                     None \<Rightarrow> Inl DanglingView
                   | Some (q, Q) \<Rightarrow> begin_of V Q))"

definition View_end :: "view_ptr \<Rightarrow> 'a heap \<Rightarrow> failure + nat" where
  "View_end v h =
     (case views h v of
        None \<Rightarrow> Inl Undefined
      | Some V \<Rightarrow> (case lock h V of
                     None \<Rightarrow> Inl DanglingView
                   | Some (q, Q) \<Rightarrow> Inr (end_of V Q)))"

definition View_size :: "view_ptr \<Rightarrow> 'a heap \<Rightarrow> failure + nat" where
  "View_size v h =
     (case views h v of
        None \<Rightarrow> Inl Undefined
      | Some V \<Rightarrow> (case lock h V of
                     None \<Rightarrow> Inl DanglingView
                   | Some (q, Q) \<Rightarrow> (case begin_of V Q of
                                      Inl e \<Rightarrow> Inl e
                                    | Inr b \<Rightarrow> Inr (end_of V Q - b))))"

definition View_clear :: "view_ptr \<Rightarrow> 'a heap \<Rightarrow> failure + 'a heap" where
  "View_clear v h =
     (case views h v of
        None \<Rightarrow> Inl Undefined
      | Some V \<Rightarrow> (case lock h V of
                     None \<Rightarrow> Inl DanglingView
                   | Some (q, Q) \<Rightarrow> (case unregisterView q v h of
                                      Inl e \<Rightarrow> Inl e
                                    | Inr h1 \<Rightarrow> on_queue q (registerView v) h1)))"

text \<open>
  \<open>waitFor\<close> returns the value of its condition when the wait ends; with no other thread
  that is its value at the call. The duration plays no part.
\<close>

definition View_waitFor :: "nat \<Rightarrow> view_ptr \<Rightarrow> 'a heap \<Rightarrow> failure + bool" where
  "View_waitFor duration v h =
     (case views h v of
        None \<Rightarrow> Inl Undefined
      | Some V \<Rightarrow> (case lock h V of
                     None \<Rightarrow> Inl DanglingView
                   | Some (q, Q) \<Rightarrow> (case begin_of V Q of
                                      Inl e \<Rightarrow> Inl e
                                    | Inr b \<Rightarrow> Inr (b \<noteq> end_of V Q))))"

text \<open>
  \<open>pop\<close>. The argument of \<open>decreaseReferenceCount(m_idx++)\<close> is evaluated, and the index
  incremented, before the call.
\<close>

definition View_pop :: "view_ptr \<Rightarrow> 'a heap \<Rightarrow> failure + 'a \<times> 'a heap" where
  "View_pop v h =
     (case views h v of
        None \<Rightarrow> Inl Undefined
      | Some V \<Rightarrow> (case lock h V of
                     None \<Rightarrow> Inl DanglingView
                   | Some (q, Q) \<Rightarrow>
                      (case begin_of V Q of
                         Inl e \<Rightarrow> Inl e
                       | Inr b \<Rightarrow>
                           if b = end_of V Q then Inl Blocked
                           else
                             let val = m_impl Q ! b
                             in (case decreaseReferenceCount q (m_idx V)
                                       (h\<lparr>views := (views h)(v \<mapsto> V\<lparr>m_idx := m_idx V + 1\<rparr>)\<rparr>) of
                                   Inl e \<Rightarrow> Inl e
                                 | Inr h' \<Rightarrow> Inr (val, h')))))"

section \<open>Producers (dataflow/Producer.h)\<close>

text \<open>
  \<open>Producer<Out>\<close> owns one queue, \<open>m_outputPipe\<close>. Overload resolution is settled at
  compile time: a value of type \<open>Out\<close> goes to the template \<open>pushOutput(T&&)\<close>, a value of
  type \<open>std::optional<Out>\<close> to the overload \<open>pushOutput(std::optional<Out>)\<close>. For
  \<open>Producer<std::optional<T>>\<close> a \<open>std::optional<T>\<close> is a value of type \<open>Out\<close>.
\<close>

definition Producer_getOutputPipe :: "queue_ptr \<Rightarrow> view_ptr \<Rightarrow> 'a heap \<Rightarrow> failure + 'a heap" where
  "Producer_getOutputPipe m_outputPipe v h = view m_outputPipe v h"

definition pushOutput :: "'a \<Rightarrow> queue_ptr \<Rightarrow> 'a heap \<Rightarrow> failure + 'a heap" where
  "pushOutput val m_outputPipe h = on_queue m_outputPipe (push val) h"

definition pushOutput_optional :: "'a option \<Rightarrow> queue_ptr \<Rightarrow> 'a heap \<Rightarrow> failure + 'a heap" where
  "pushOutput_optional val m_outputPipe h =
     (case val of
        None \<Rightarrow> Inr h
      | Some x \<Rightarrow> pushOutput x m_outputPipe h)"

text \<open>
  \<open>Producer<Out[]>\<close> owns a vector of queues that \<open>getOutputPipeSource\<close> extends on
  demand. The index is an \<open>int\<close> in the source; it is a natural here.
\<close>

function getOutputPipeSource_loop ::
  "nat \<Rightarrow> nat \<Rightarrow> queue_ptr list \<Rightarrow> 'a heap \<Rightarrow> queue_ptr list \<times> 'a heap" where
  "getOutputPipeSource_loop i idx m_outputPipes h =
     (if i \<le> idx then
        (case make h of
           (q, h') \<Rightarrow> getOutputPipeSource_loop (i + 1) idx (m_outputPipes @ [q]) h')
      else (m_outputPipes, h))"
  by pat_completeness auto

termination
  by (relation "measure (\<lambda>(i, idx, ps, h). Suc idx - i)") auto

declare getOutputPipeSource_loop.simps [simp del]

definition getOutputPipeSource ::
  "nat \<Rightarrow> queue_ptr list \<Rightarrow> 'a heap \<Rightarrow> queue_ptr \<times> queue_ptr list \<times> 'a heap" where
  "getOutputPipeSource idx m_outputPipes h =
     (case getOutputPipeSource_loop (length m_outputPipes) idx m_outputPipes h of
        (ps, h') \<Rightarrow> (ps ! idx, ps, h'))"

definition bus_getOutputPipe ::
  "nat \<Rightarrow> view_ptr \<Rightarrow> queue_ptr list \<Rightarrow> 'a heap \<Rightarrow> failure + queue_ptr list \<times> 'a heap" where
  "bus_getOutputPipe idx v m_outputPipes h =
     (case getOutputPipeSource idx m_outputPipes h of
        (q, ps, h') \<Rightarrow> (case view q v h' of
                          Inl e \<Rightarrow> Inl e
                        | Inr h'' \<Rightarrow> Inr (ps, h'')))"

definition bus_pushOutput_at ::
  "nat \<Rightarrow> 'a \<Rightarrow> queue_ptr list \<Rightarrow> 'a heap \<Rightarrow> failure + queue_ptr list \<times> 'a heap" where
  "bus_pushOutput_at idx val m_outputPipes h =
     (case getOutputPipeSource idx m_outputPipes h of
        (q, ps, h') \<Rightarrow> (case on_queue q (push val) h' of
                          Inl e \<Rightarrow> Inl e
                        | Inr h'' \<Rightarrow> Inr (ps, h'')))"

definition bus_pushOutput_at_optional ::
  "nat \<Rightarrow> 'a option \<Rightarrow> queue_ptr list \<Rightarrow> 'a heap \<Rightarrow> failure + queue_ptr list \<times> 'a heap" where
  "bus_pushOutput_at_optional idx val m_outputPipes h =
     (case val of
        None \<Rightarrow> Inr (m_outputPipes, h)
      | Some x \<Rightarrow> bus_pushOutput_at idx x m_outputPipes h)"

text \<open>
  \<open>for (auto i = 0; i != values.size(); ++i) pushOutput(i, values[i]);\<close> with the values
  still to be pushed as the argument of the recursion.
\<close>

fun bus_pushOutput_from ::
  "nat \<Rightarrow> 'a list \<Rightarrow> queue_ptr list \<Rightarrow> 'a heap \<Rightarrow> failure + queue_ptr list \<times> 'a heap" where
  "bus_pushOutput_from i [] m_outputPipes h = Inr (m_outputPipes, h)"
| "bus_pushOutput_from i (x # xs) m_outputPipes h =
     (case bus_pushOutput_at i x m_outputPipes h of
        Inl e \<Rightarrow> Inl e
      | Inr (ps, h') \<Rightarrow> bus_pushOutput_from (i + 1) xs ps h')"

definition bus_pushOutput ::
  "'a list \<Rightarrow> queue_ptr list \<Rightarrow> 'a heap \<Rightarrow> failure + queue_ptr list \<times> 'a heap" where
  "bus_pushOutput vals m_outputPipes h = bus_pushOutput_from 0 vals m_outputPipes h"

fun bus_pushOutput_optional_from ::
  "nat \<Rightarrow> 'a option list \<Rightarrow> queue_ptr list \<Rightarrow> 'a heap \<Rightarrow> failure + queue_ptr list \<times> 'a heap" where
  "bus_pushOutput_optional_from i [] m_outputPipes h = Inr (m_outputPipes, h)"
| "bus_pushOutput_optional_from i (x # xs) m_outputPipes h =
     (case bus_pushOutput_at_optional i x m_outputPipes h of
        Inl e \<Rightarrow> Inl e
      | Inr (ps, h') \<Rightarrow> bus_pushOutput_optional_from (i + 1) xs ps h')"

definition bus_pushOutput_optional ::
  "'a option list \<Rightarrow> queue_ptr list \<Rightarrow> 'a heap \<Rightarrow> failure + queue_ptr list \<times> 'a heap" where
  "bus_pushOutput_optional vals m_outputPipes h =
     bus_pushOutput_optional_from 0 vals m_outputPipes h"

section \<open>Consumers (dataflow/Consumer.h)\<close>

text \<open>
  \<open>Consumer<In>\<close> owns one view, \<open>m_inputPipe\<close>, a member object at a fixed address.
  \<open>setInputPipe\<close> takes its argument by value, at the address \<open>inputPipe\<close>; the
  parameter is destroyed when the call returns.
\<close>

definition setInputPipe :: "view_ptr \<Rightarrow> view_ptr \<Rightarrow> 'a heap \<Rightarrow> failure + 'a heap" where
  "setInputPipe m_inputPipe inputPipe h =
     (case View_move_assign m_inputPipe inputPipe h of
        Inl e \<Rightarrow> Inl e
      | Inr h' \<Rightarrow> View_dtor inputPipe h')"

definition pullInput :: "view_ptr \<Rightarrow> 'a heap \<Rightarrow> failure + 'a option \<times> 'a heap" where
  "pullInput m_inputPipe h =
     (case View_size m_inputPipe h of
        Inl e \<Rightarrow> Inl e
      | Inr n \<Rightarrow>
          if n > 0 then
            (case View_pop m_inputPipe h of
               Inl e \<Rightarrow> Inl e
             | Inr (x, h') \<Rightarrow> Inr (Some x, h'))
          else Inr (None, h))"

text \<open>
  \<open>Consumer<Ins...>\<close> owns a tuple of views (\<open>inputPipes\<close> below). All queues of the store carry one element
  type, so the tuple is a list. The fold \<open>(... && (size() > 0))\<close> stops at the first view
  that is not ready; the braced initialiser of \<open>getInputs\<close> pops from left to right.
\<close>

fun allInputsReady :: "view_ptr list \<Rightarrow> 'a heap \<Rightarrow> failure + bool" where
  "allInputsReady [] h = Inr True"
| "allInputsReady (p # ps) h =
     (case View_size p h of
        Inl e \<Rightarrow> Inl e
      | Inr n \<Rightarrow> if n > 0 then allInputsReady ps h else Inr False)"

fun getInputs :: "view_ptr list \<Rightarrow> 'a heap \<Rightarrow> failure + 'a list \<times> 'a heap" where
  "getInputs [] h = Inr ([], h)"
| "getInputs (p # ps) h =
     (case View_pop p h of
        Inl e \<Rightarrow> Inl e
      | Inr (x, h') \<Rightarrow> (case getInputs ps h' of
                          Inl e \<Rightarrow> Inl e
                        | Inr (xs, h'') \<Rightarrow> Inr (x # xs, h'')))"

definition pullInputs :: "view_ptr list \<Rightarrow> 'a heap \<Rightarrow> failure + 'a list option \<times> 'a heap" where
  "pullInputs inputPipes h =
     (case allInputsReady inputPipes h of
        Inl e \<Rightarrow> Inl e
      | Inr ready \<Rightarrow>
          if ready then
            (case getInputs inputPipes h of
               Inl e \<Rightarrow> Inl e
             | Inr (xs, h') \<Rightarrow> Inr (Some xs, h'))
          else Inr (None, h))"

text \<open>
  \<open>Consumer<In[]>::pullInput\<close>, on the members declared with the store: a vector of
  views and the inputs gathered so far.
\<close>

function bus_pullInput_loop ::
  "nat \<Rightarrow> 'a bus_consumer \<Rightarrow> 'a heap \<Rightarrow> failure + 'a list option \<times> 'a bus_consumer \<times> 'a heap" where
  "bus_pullInput_loop i c h =
     (if i \<noteq> length (m_inputPipes c) then
        (if i > length (m_inputPipes c) then Inl Undefined
         else
           (case View_size (m_inputPipes c ! i) h of
              Inl e \<Rightarrow> Inl e
            | Inr n \<Rightarrow>
                if n > 0 then
                  (case View_pop (m_inputPipes c ! i) h of
                     Inl e \<Rightarrow> Inl e
                   | Inr (x, h') \<Rightarrow>
                       bus_pullInput_loop (i + 1) (c\<lparr>m_inputs := m_inputs c @ [x]\<rparr>) h')
                else Inr (None, c, h)))
      else Inr (Some (m_inputs c), c\<lparr>m_inputs := []\<rparr>, h))"
  by pat_completeness auto

termination
  by (relation "measure (\<lambda>(i, c, h). length (m_inputPipes c) - i)") auto

declare bus_pullInput_loop.simps [simp del]

definition bus_pullInput ::
  "'a bus_consumer \<Rightarrow> 'a heap \<Rightarrow> failure + 'a list option \<times> 'a bus_consumer \<times> 'a heap" where
  "bus_pullInput c h = bus_pullInput_loop (length (m_inputs c)) c h"

section \<open>Components and circuits (ComponentFactory.h, Circuit.h)\<close>

text \<open>
  \<open>ComponentAdaptor::tick\<close>, one definition for each branch of its \<open>if constexpr\<close>. A
  component works on a pair: \<open>m\<close>, the store together with the members of its traits, and
  \<open>u\<close>, whatever the implementation captured. \<open>pull\<close> and \<open>pushOut\<close> are the
  \<open>pullInput\<close> and \<open>pushOutput\<close> of the traits the adaptor inherits; \<open>impl\<close> is the
  callable, which may change what it captured.
\<close>

definition tick_consumer_producer ::
  "('m \<Rightarrow> failure + 'i option \<times> 'm) \<Rightarrow> ('i \<Rightarrow> 'u \<Rightarrow> 'o \<times> 'u) \<Rightarrow> ('o \<Rightarrow> 'm \<Rightarrow> failure + 'm)
     \<Rightarrow> 'm \<times> 'u \<Rightarrow> failure + 'm \<times> 'u" where
  "tick_consumer_producer pull impl pushOut s =
     (case pull (fst s) of
        Inl e \<Rightarrow> Inl e
      | Inr (None, m') \<Rightarrow> Inr (m', snd s)
      | Inr (Some input, m') \<Rightarrow>
          (case impl input (snd s) of
             (out, u') \<Rightarrow> (case pushOut out m' of
                             Inl e \<Rightarrow> Inl e
                           | Inr m'' \<Rightarrow> Inr (m'', u'))))"

definition tick_consumer ::
  "('m \<Rightarrow> failure + 'i option \<times> 'm) \<Rightarrow> ('i \<Rightarrow> 'u \<Rightarrow> 'u) \<Rightarrow> 'm \<times> 'u \<Rightarrow> failure + 'm \<times> 'u" where
  "tick_consumer pull impl s =
     (case pull (fst s) of
        Inl e \<Rightarrow> Inl e
      | Inr (None, m') \<Rightarrow> Inr (m', snd s)
      | Inr (Some input, m') \<Rightarrow> Inr (m', impl input (snd s)))"

definition tick_producer ::
  "('u \<Rightarrow> 'o \<times> 'u) \<Rightarrow> ('o \<Rightarrow> 'm \<Rightarrow> failure + 'm) \<Rightarrow> 'm \<times> 'u \<Rightarrow> failure + 'm \<times> 'u" where
  "tick_producer impl pushOut s =
     (case impl (snd s) of
        (out, u') \<Rightarrow> (case pushOut out (fst s) of
                        Inl e \<Rightarrow> Inl e
                      | Inr m' \<Rightarrow> Inr (m', u')))"

text \<open>\<open>Circuit::tick\<close>: the components in order; an exception leaves the loop.\<close>

fun Circuit_tick :: "('s \<Rightarrow> failure + 's) list \<Rightarrow> 's \<Rightarrow> failure + 's" where
  "Circuit_tick [] s = Inr s"
| "Circuit_tick (component # m_components) s =
     (case component s of
        Inl e \<Rightarrow> Inl e
      | Inr s' \<Rightarrow> Circuit_tick m_components s')"

section \<open>Consistent stores\<close>

text \<open>
  The range a view covers: the elements from its index to the end of its queue, which is
  what iterating from \<open>begin()\<close> to \<open>end()\<close> visits and what successive calls of \<open>pop\<close>
  return.
\<close>

definition covered :: "view_ptr \<Rightarrow> 'a heap \<Rightarrow> 'a list" where
  "covered v h =
     (case views h v of
        None \<Rightarrow> []
      | Some V \<Rightarrow> (case lock h V of
                     None \<Rightarrow> []
                   | Some (q, Q) \<Rightarrow> drop (m_idx V) (m_impl Q)))"

text \<open>A view that is alive and whose queue is alive.\<close>

definition attached :: "view_ptr \<Rightarrow> 'a heap \<Rightarrow> bool" where
  "attached v h =
     (case views h v of
        None \<Rightarrow> False
      | Some V \<Rightarrow> lock h V \<noteq> None)"

text \<open>The queue a view points to, whether that queue is alive or not.\<close>

definition queue_of :: "view_ptr \<Rightarrow> 'a heap \<Rightarrow> queue_ptr option" where
  "queue_of v h =
     (case views h v of
        None \<Rightarrow> None
      | Some V \<Rightarrow> m_queue V)"

definition idx_of :: "'a heap \<Rightarrow> view_ptr \<Rightarrow> nat" where
  "idx_of h w = (case views h w of None \<Rightarrow> 0 | Some W \<Rightarrow> m_idx W)"

text \<open>
  The invariant the reference counts are meant to keep: every registered view that is
  alive points back to the queue and has its index within the queue; the count of a slot
  is the number of registered views that have not passed it, and is not zero. The set may
  hold the address of a view that is gone (move assignment leaves the source registered);
  such an address counts for every slot, as it never pops (\<open>idx_of\<close> is 0 for it).
\<close>

definition wf_queue :: "'a heap \<Rightarrow> queue_ptr \<Rightarrow> 'a Queue \<Rightarrow> bool" where
  "wf_queue h q Q \<longleftrightarrow>
     finite (m_views Q) \<and>
     length (m_referenceCounter Q) = length (m_impl Q) \<and>
     (\<forall>w \<in> m_views Q. \<forall>W. views h w = Some W \<longrightarrow>
          m_queue W = Some q \<and> m_idx W \<le> length (m_impl Q)) \<and>
     (\<forall>i < length (m_impl Q).
        m_referenceCounter Q ! i = card {w \<in> m_views Q. idx_of h w \<le> i}
        \<and> 0 < m_referenceCounter Q ! i)"

text \<open>
  A store is consistent when each queue is, each view that points to a live queue is
  registered there, and no pointer refers to a queue that was never made.
\<close>

definition wf :: "'a heap \<Rightarrow> bool" where
  "wf h \<longleftrightarrow>
     (\<forall>q Q. queues h q = Some Q \<longrightarrow> wf_queue h q Q \<and> q < next_queue h) \<and>
     (\<forall>v V q. views h v = Some V \<and> m_queue V = Some q \<longrightarrow>
          q < next_queue h \<and> (\<forall>Q. queues h q = Some Q \<longrightarrow> v \<in> m_views Q))"

definition empty_heap :: "'a heap" where
  "empty_heap = \<lparr>queues = Map.empty, views = Map.empty, next_queue = 0\<rparr>"

text \<open>An address at which no view lives and that no queue has registered.\<close>

definition unused :: "view_ptr \<Rightarrow> 'a heap \<Rightarrow> bool" where
  "unused v h \<longleftrightarrow>
     views h v = None \<and> (\<forall>q Q. queues h q = Some Q \<longrightarrow> v \<notin> m_views Q)"

text \<open>
  For \<open>Consumer<In[]>\<close>: the views that have not yet contributed to the round, and the
  longest run of them, from the first on, that are ready.
\<close>

definition pending :: "'a bus_consumer \<Rightarrow> view_ptr list" where
  "pending c = drop (length (m_inputs c)) (m_inputPipes c)"

definition ready_run :: "'a bus_consumer \<Rightarrow> 'a heap \<Rightarrow> view_ptr list" where
  "ready_run c h = takeWhile (\<lambda>p. covered p h \<noteq> []) (pending c)"

section \<open>Example stores\<close>

text \<open>A queue that no view is registered with.\<close>

definition unobserved_heap :: "nat heap" where
  "unobserved_heap = \<lparr>queues = [0 \<mapsto> empty_Queue], views = Map.empty, next_queue = 1\<rparr>"

text \<open>One view, at address 1, on queue 0, which is empty.\<close>

definition registered_heap :: "nat heap" where
  "registered_heap =
     \<lparr>queues = [0 \<mapsto> \<lparr>m_impl = [], m_referenceCounter = [], m_views = {1}\<rparr>],
      views = [1 \<mapsto> \<lparr>m_queue = Some 0, m_idx = 0\<rparr>],
      next_queue = 1\<rparr>"

text \<open>One view, at address 1, on queue 0, which holds the element 7 for it.\<close>

definition single_heap :: "nat heap" where
  "single_heap =
     \<lparr>queues = [0 \<mapsto> \<lparr>m_impl = [7], m_referenceCounter = [1], m_views = {1}\<rparr>],
      views = [1 \<mapsto> \<lparr>m_queue = Some 0, m_idx = 0\<rparr>],
      next_queue = 1\<rparr>"

text \<open>The store after that view has popped the element.\<close>

definition single_heap_popped :: "nat heap" where
  "single_heap_popped =
     \<lparr>queues = [0 \<mapsto> \<lparr>m_impl = [], m_referenceCounter = [], m_views = {1}\<rparr>],
      views = [1 \<mapsto> \<lparr>m_queue = Some 0, m_idx = 0\<rparr>],
      next_queue = 1\<rparr>"

text \<open>
  Two queues feeding a consumer with two inputs, the views at 3 and 4. The inputs were set
  with \<open>setInputPipes\<close>, whose move assignments left the addresses 1 and 2 of the
  temporaries registered. Queue 0 holds 123, queue 1 holds nothing.
\<close>

definition pair_heap :: "nat heap" where
  "pair_heap =
     \<lparr>queues = [0 \<mapsto> \<lparr>m_impl = [123], m_referenceCounter = [2], m_views = {1, 3}\<rparr>,
                1 \<mapsto> \<lparr>m_impl = [], m_referenceCounter = [], m_views = {2, 4}\<rparr>],
      views = [3 \<mapsto> \<lparr>m_queue = Some 0, m_idx = 0\<rparr>, 4 \<mapsto> \<lparr>m_queue = Some 1, m_idx = 0\<rparr>],
      next_queue = 2\<rparr>"

text \<open>The same with 5 in queue 1, and the store after both views have popped.\<close>

definition pair_heap_ready :: "nat heap" where
  "pair_heap_ready =
     \<lparr>queues = [0 \<mapsto> \<lparr>m_impl = [123], m_referenceCounter = [2], m_views = {1, 3}\<rparr>,
                1 \<mapsto> \<lparr>m_impl = [5], m_referenceCounter = [2], m_views = {2, 4}\<rparr>],
      views = [3 \<mapsto> \<lparr>m_queue = Some 0, m_idx = 0\<rparr>, 4 \<mapsto> \<lparr>m_queue = Some 1, m_idx = 0\<rparr>],
      next_queue = 2\<rparr>"

definition pair_heap_pulled :: "nat heap" where
  "pair_heap_pulled =
     \<lparr>queues = [0 \<mapsto> \<lparr>m_impl = [123], m_referenceCounter = [1], m_views = {1, 3}\<rparr>,
                1 \<mapsto> \<lparr>m_impl = [5], m_referenceCounter = [1], m_views = {2, 4}\<rparr>],
      views = [3 \<mapsto> \<lparr>m_queue = Some 0, m_idx = 1\<rparr>, 4 \<mapsto> \<lparr>m_queue = Some 1, m_idx = 1\<rparr>],
      next_queue = 2\<rparr>"

text \<open>
  The bus consumer of the test \<open>consumer/bus\<close>: two queues, one view on each, at 11
  and 12, with the elements that the two queues hold for them.
\<close>

definition bus_start :: "nat bus_consumer" where
  "bus_start = \<lparr>m_inputPipes = [11, 12], m_inputs = []\<rparr>"

definition bus_heap :: "nat list \<Rightarrow> nat list \<Rightarrow> nat heap" where
  "bus_heap xs ys =
     \<lparr>queues = [0 \<mapsto> \<lparr>m_impl = xs, m_referenceCounter = map (\<lambda>x. 1) xs, m_views = {11}\<rparr>,
                1 \<mapsto> \<lparr>m_impl = ys, m_referenceCounter = map (\<lambda>y. 1) ys, m_views = {12}\<rparr>],
      views = [11 \<mapsto> \<lparr>m_queue = Some 0, m_idx = 0\<rparr>, 12 \<mapsto> \<lparr>m_queue = Some 1, m_idx = 0\<rparr>],
      next_queue = 2\<rparr>"

text \<open>
  The test \<open>producer/optional\<close>, for \<open>Producer<std::optional<int>>\<close>: queue 0 with one
  view, at 21, and the elements the queue holds for it.
\<close>

definition optional_heap :: "nat option list \<Rightarrow> nat option heap" where
  "optional_heap xs =
     \<lparr>queues = [0 \<mapsto> \<lparr>m_impl = xs, m_referenceCounter = map (\<lambda>x. 1) xs, m_views = {21}\<rparr>],
      views = [21 \<mapsto> \<lparr>m_queue = Some 0, m_idx = 0\<rparr>],
      next_queue = 1\<rparr>"

text \<open>The same for \<open>Producer<int>\<close>.\<close>

definition plain_heap :: "nat list \<Rightarrow> nat heap" where
  "plain_heap xs =
     \<lparr>queues = [0 \<mapsto> \<lparr>m_impl = xs, m_referenceCounter = map (\<lambda>x. 1) xs, m_views = {21}\<rparr>],
      views = [21 \<mapsto> \<lparr>m_queue = Some 0, m_idx = 0\<rparr>],
      next_queue = 1\<rparr>"

text \<open>
  The store \<open>single_heap\<close> after the view at 1 has been moved to a new view at 2, and
  after that view has popped the element.
\<close>

definition moved_heap :: "nat heap" where
  "moved_heap =
     \<lparr>queues = [0 \<mapsto> \<lparr>m_impl = [7], m_referenceCounter = [1], m_views = {2}\<rparr>],
      views = [1 \<mapsto> \<lparr>m_queue = None, m_idx = 0\<rparr>, 2 \<mapsto> \<lparr>m_queue = Some 0, m_idx = 0\<rparr>],
      next_queue = 1\<rparr>"

definition moved_heap_popped :: "nat heap" where
  "moved_heap_popped =
     \<lparr>queues = [0 \<mapsto> \<lparr>m_impl = [], m_referenceCounter = [], m_views = {2}\<rparr>],
      views = [1 \<mapsto> \<lparr>m_queue = None, m_idx = 0\<rparr>, 2 \<mapsto> \<lparr>m_queue = Some 0, m_idx = 0\<rparr>],
      next_queue = 1\<rparr>"

text \<open>
  The store \<open>single_heap\<close> after the view at 1 has been copied to a new view at 2; then
  after the original has popped the element; and, instead, after the copy was destroyed.
\<close>

definition copied_heap :: "nat heap" where
  "copied_heap =
     \<lparr>queues = [0 \<mapsto> \<lparr>m_impl = [7], m_referenceCounter = [1], m_views = {1, 2}\<rparr>],
      views = [1 \<mapsto> \<lparr>m_queue = Some 0, m_idx = 0\<rparr>, 2 \<mapsto> \<lparr>m_queue = Some 0, m_idx = 0\<rparr>],
      next_queue = 1\<rparr>"

definition copied_heap_popped :: "nat heap" where
  "copied_heap_popped =
     \<lparr>queues = [0 \<mapsto> \<lparr>m_impl = [], m_referenceCounter = [], m_views = {1, 2}\<rparr>],
      views = [1 \<mapsto> \<lparr>m_queue = Some 0, m_idx = 0\<rparr>,
               2 \<mapsto> \<lparr>m_queue = Some 0, m_idx = SIZE_MAX\<rparr>],
      next_queue = 1\<rparr>"

definition copy_popped_heap :: "nat heap" where
  "copy_popped_heap =
     \<lparr>queues = [0 \<mapsto> \<lparr>m_impl = [], m_referenceCounter = [], m_views = {1, 2}\<rparr>],
      views = [1 \<mapsto> \<lparr>m_queue = Some 0, m_idx = SIZE_MAX\<rparr>,
               2 \<mapsto> \<lparr>m_queue = Some 0, m_idx = 0\<rparr>],
      next_queue = 1\<rparr>"

definition copy_destroyed_heap :: "nat heap" where
  "copy_destroyed_heap =
     \<lparr>queues = [0 \<mapsto> \<lparr>m_impl = [], m_referenceCounter = [], m_views = {1}\<rparr>],
      views = [1 \<mapsto> \<lparr>m_queue = Some 0, m_idx = SIZE_MAX\<rparr>],
      next_queue = 1\<rparr>"

text \<open>
  The queues a bus producer owns: distinct, alive, and made by \<open>make\<close>.
\<close>

definition pipes_ok :: "queue_ptr list \<Rightarrow> 'a heap \<Rightarrow> bool" where
  "pipes_ok ps h \<longleftrightarrow> distinct ps \<and> (\<forall>q \<in> set ps. q < next_queue h \<and> queues h q \<noteq> None)"

text \<open>What element \<open>k\<close> of a pushed group does to the queue \<open>Q\<close> of pipe \<open>k\<close>.\<close>

definition routed :: "'a option list \<Rightarrow> nat \<Rightarrow> 'a Queue \<Rightarrow> 'a Queue" where
  "routed vals k Q =
     (if k < length vals then (case vals ! k of None \<Rightarrow> Q | Some x \<Rightarrow> push x Q) else Q)"

text \<open>A driver that ticks a component \<open>n\<close> times.\<close>

fun tick_times :: "nat \<Rightarrow> ('s \<Rightarrow> failure + 's) \<Rightarrow> 's \<Rightarrow> failure + 's" where
  "tick_times 0 tick s = Inr s"
| "tick_times (Suc n) tick s =
     (case tick s of
        Inl e \<Rightarrow> Inl e
      | Inr s' \<Rightarrow> tick_times n tick s')"

text \<open>
  The test \<open>producer/bus\<close>: the three queues that \<open>getOutputPipe(0)\<close>, \<open>(1)\<close> and \<open>(2)\<close>
  made, with their views at 31, 32 and 33, and the elements the queues hold for them.
\<close>

definition bus_out_heap :: "nat list \<Rightarrow> nat list \<Rightarrow> nat list \<Rightarrow> nat heap" where
  "bus_out_heap xs ys zs =
     \<lparr>queues = [0 \<mapsto> \<lparr>m_impl = xs, m_referenceCounter = map (\<lambda>x. 1) xs, m_views = {31}\<rparr>,
                1 \<mapsto> \<lparr>m_impl = ys, m_referenceCounter = map (\<lambda>y. 1) ys, m_views = {32}\<rparr>,
                2 \<mapsto> \<lparr>m_impl = zs, m_referenceCounter = map (\<lambda>z. 1) zs, m_views = {33}\<rparr>],
      views = [31 \<mapsto> \<lparr>m_queue = Some 0, m_idx = 0\<rparr>, 32 \<mapsto> \<lparr>m_queue = Some 1, m_idx = 0\<rparr>,
               33 \<mapsto> \<lparr>m_queue = Some 2, m_idx = 0\<rparr>],
      next_queue = 3\<rparr>"

text \<open>The store of that test after \<open>getOutputPipe(0)\<close>, and after \<open>getOutputPipe(1)\<close>.\<close>

definition bus_out_heap1 :: "nat heap" where
  "bus_out_heap1 =
     \<lparr>queues = [0 \<mapsto> \<lparr>m_impl = [], m_referenceCounter = [], m_views = {31}\<rparr>],
      views = [31 \<mapsto> \<lparr>m_queue = Some 0, m_idx = 0\<rparr>],
      next_queue = 1\<rparr>"

definition bus_out_heap2 :: "nat heap" where
  "bus_out_heap2 =
     \<lparr>queues = [0 \<mapsto> \<lparr>m_impl = [], m_referenceCounter = [], m_views = {31}\<rparr>,
                1 \<mapsto> \<lparr>m_impl = [], m_referenceCounter = [], m_views = {32}\<rparr>],
      views = [31 \<mapsto> \<lparr>m_queue = Some 0, m_idx = 0\<rparr>, 32 \<mapsto> \<lparr>m_queue = Some 1, m_idx = 0\<rparr>],
      next_queue = 2\<rparr>"

section \<open>Properties of consistent stores\<close>

lemma wf_queueD_count:
  "wf_queue h q Q \<Longrightarrow> i < length (m_impl Q) \<Longrightarrow>
   m_referenceCounter Q ! i = card {w \<in> m_views Q. idx_of h w \<le> i}"
  by (simp add: wf_queue_def)

lemma wf_queue_front:
  assumes wq: "wf_queue h q Q" and vin: "v \<in> m_views Q"
    and i: "idx_of h v < length (m_impl Q)"
    and one: "m_referenceCounter Q ! idx_of h v = 1"
  shows "idx_of h v = 0 \<and> (\<forall>w \<in> m_views Q - {v}. 0 < idx_of h w)"
    and "views h v \<noteq> None \<Longrightarrow> \<forall>w \<in> m_views Q. views h w \<noteq> None"
proof -
  let ?S = "\<lambda>i. {w \<in> m_views Q. idx_of h w \<le> i}"
  have fin: "finite (?S (idx_of h v))" using wq by (simp add: wf_queue_def)
  have c1: "card (?S (idx_of h v)) = 1" using wq i one by (simp add: wf_queue_def)
  have vS: "v \<in> ?S (idx_of h v)" using vin by simp
  have Seq: "?S (idx_of h v) = {v}"
    using c1 vS by (metis card_1_singletonE singletonD)
  have l0: "0 < length (m_impl Q)" using i by (cases "m_impl Q") auto
  have "m_referenceCounter Q ! 0 = card (?S 0) \<and> 0 < m_referenceCounter Q ! 0"
    using wq l0 unfolding wf_queue_def by blast
  then have pos0: "0 < card (?S 0)" by simp
  then have "?S 0 \<noteq> {}" by (metis card.empty less_numeral_extra(3))
  then obtain u where u: "u \<in> ?S 0" by blast
  then have "u \<in> ?S (idx_of h v)" by auto
  with Seq have "u = v" by simp
  with u have z: "idx_of h v = 0" by simp
  have "\<forall>w \<in> m_views Q - {v}. 0 < idx_of h w"
  proof
    fix w assume w: "w \<in> m_views Q - {v}"
    show "0 < idx_of h w"
    proof (rule ccontr)
      assume "\<not> 0 < idx_of h w"
      then have "w \<in> ?S (idx_of h v)" using w by simp
      with Seq w show False by simp
    qed
  qed
  with z show "idx_of h v = 0 \<and> (\<forall>w \<in> m_views Q - {v}. 0 < idx_of h w)" by simp
  show "\<forall>w \<in> m_views Q. views h w \<noteq> None" if alive: "views h v \<noteq> None"
  proof (intro ballI notI)
    fix w assume w: "w \<in> m_views Q" and dead: "views h w = None"
    then have "w \<in> ?S (idx_of h v)" by (simp add: idx_of_def)
    with Seq have "w = v" by simp
    with dead alive show False by simp
  qed
qed

lemma wf_registered:
  "wf h \<Longrightarrow> views h v = Some V \<Longrightarrow> m_queue V = Some q \<Longrightarrow> queues h q = Some Q
     \<Longrightarrow> v \<in> m_views Q \<and> wf_queue h q Q"
  unfolding wf_def by blast

lemma wf_queue_member:
  "wf_queue h q Q \<Longrightarrow> w \<in> m_views Q \<Longrightarrow> views h w = Some W
     \<Longrightarrow> m_queue W = Some q \<and> m_idx W \<le> length (m_impl Q)"
  unfolding wf_queue_def by blast

lemma wf_queue_pos:
  "wf_queue h q Q \<Longrightarrow> i < length (m_impl Q) \<Longrightarrow> 0 < m_referenceCounter Q ! i"
  unfolding wf_queue_def by blast

lemma wf_queue_len:
  "wf_queue h q Q \<Longrightarrow> length (m_referenceCounter Q) = length (m_impl Q)"
  by (simp add: wf_queue_def)

lemma idx_of_Some [simp]: "views h v = Some V \<Longrightarrow> idx_of h v = m_idx V"
  by (simp add: idx_of_def)

lemma View_pop_keep:
  assumes "wf h" "views h v = Some V" "m_queue V = Some q" "queues h q = Some Q"
    and i: "m_idx V < length (m_impl Q)" and c: "m_referenceCounter Q ! m_idx V \<noteq> 1"
  shows "View_pop v h = Inr (m_impl Q ! m_idx V,
           h\<lparr>views := (views h)(v \<mapsto> V\<lparr>m_idx := m_idx V + 1\<rparr>),
             queues := (queues h)(q \<mapsto> Q\<lparr>m_referenceCounter :=
                (m_referenceCounter Q)[m_idx V := m_referenceCounter Q ! m_idx V - 1]\<rparr>)\<rparr>)"
proof -
  from assms have wq: "wf_queue h q Q" by (blast dest: wf_registered)
  have pos: "0 < m_referenceCounter Q ! m_idx V" using wq i by (rule wf_queue_pos)
  have len: "length (m_referenceCounter Q) = length (m_impl Q)" using wq by (rule wf_queue_len)
  have d: "dec_size_t (m_referenceCounter Q ! m_idx V) = m_referenceCounter Q ! m_idx V - 1"
    using pos by (simp add: dec_size_t_def)
  show ?thesis
    using assms pos len d
    by (simp add: View_pop_def lock_def begin_of_def end_of_def decreaseReferenceCount_def Let_def)
qed

lemma View_pop_evict:
  assumes "wf h" "views h v = Some V" "m_queue V = Some q" "queues h q = Some Q"
    and i: "m_idx V < length (m_impl Q)" and c: "m_referenceCounter Q ! m_idx V = 1"
  shows "View_pop v h = Inr (m_impl Q ! m_idx V,
           h\<lparr>views := (\<lambda>w. if w \<in> m_views Q - {v}
                              then map_option (\<lambda>W. W\<lparr>m_idx := m_idx W - 1\<rparr>) (views h w)
                              else views h w),
             queues := (queues h)(q \<mapsto> Q\<lparr>m_impl := tl (m_impl Q),
                                           m_referenceCounter := tl (m_referenceCounter Q)\<rparr>)\<rparr>)"
    and "m_idx V = 0" and "\<forall>w \<in> m_views Q - {v}. 0 < idx_of h w"
    and "\<forall>w \<in> m_views Q. views h w \<noteq> None"
proof -
  from assms have wq: "wf_queue h q Q" and vin: "v \<in> m_views Q" by (blast dest: wf_registered)+
  have len: "length (m_referenceCounter Q) = length (m_impl Q)" using wq by (rule wf_queue_len)
  have iv: "idx_of h v < length (m_impl Q)" "m_referenceCounter Q ! idx_of h v = 1"
    using i c assms(2) by simp_all
  have fr: "idx_of h v = 0 \<and> (\<forall>w \<in> m_views Q - {v}. 0 < idx_of h w)"
    by (rule wf_queue_front(1)[OF wq vin iv])
  show all_alive: "\<forall>w \<in> m_views Q. views h w \<noteq> None"
    using wf_queue_front(2)[OF wq vin iv] assms(2) by simp
  from fr show z: "m_idx V = 0" and others: "\<forall>w \<in> m_views Q - {v}. 0 < idx_of h w"
    using assms(2) by simp_all
  have ne: "m_impl Q \<noteq> []" using i by auto
  have alive: "\<not> (\<exists>w \<in> m_views Q. ((views h)(v \<mapsto> V\<lparr>m_idx := Suc 0\<rparr>)) w = None)"
    using all_alive by auto
  have veq: "(\<lambda>w. if w \<in> m_views Q
                then map_option (\<lambda>W. W\<lparr>m_idx := dec_size_t (m_idx W)\<rparr>)
                       (((views h)(v \<mapsto> V\<lparr>m_idx := Suc 0\<rparr>)) w)
                else ((views h)(v \<mapsto> V\<lparr>m_idx := Suc 0\<rparr>)) w)
           = (\<lambda>w. if w \<in> m_views Q - {v}
                              then map_option (\<lambda>W. W\<lparr>m_idx := m_idx W - 1\<rparr>) (views h w)
                              else views h w)"
  proof (rule ext)
    fix w
    show "(if w \<in> m_views Q
                then map_option (\<lambda>W. W\<lparr>m_idx := dec_size_t (m_idx W)\<rparr>)
                       (((views h)(v \<mapsto> V\<lparr>m_idx := Suc 0\<rparr>)) w)
                else ((views h)(v \<mapsto> V\<lparr>m_idx := Suc 0\<rparr>)) w)
           = (if w \<in> m_views Q - {v}
                              then map_option (\<lambda>W. W\<lparr>m_idx := m_idx W - 1\<rparr>) (views h w)
                              else views h w)"
    proof (cases "w = v")
      case True
      then show ?thesis using vin assms(2) z by (simp add: dec_size_t_def)
    next
      case False
      show ?thesis
      proof (cases "w \<in> m_views Q")
        case True
        then obtain W where W: "views h w = Some W" using all_alive by blast
        have "0 < idx_of h w" using others True \<open>w \<noteq> v\<close> by blast
        then have "0 < m_idx W" using W by (simp add: idx_of_def)
        then have "dec_size_t (m_idx W) = m_idx W - 1" by (simp add: dec_size_t_def)
        with W True False show ?thesis by simp
      next
        case False
        with \<open>w \<noteq> v\<close> show ?thesis by simp
      qed
    qed
  qed
  show "View_pop v h = Inr (m_impl Q ! m_idx V,
           h\<lparr>views := (\<lambda>w. if w \<in> m_views Q - {v}
                              then map_option (\<lambda>W. W\<lparr>m_idx := m_idx W - 1\<rparr>) (views h w)
                              else views h w),
             queues := (queues h)(q \<mapsto> Q\<lparr>m_impl := tl (m_impl Q),
                                           m_referenceCounter := tl (m_referenceCounter Q)\<rparr>)\<rparr>)"
  proof -
    have tl0: "tl ((m_referenceCounter Q)[0 := 0]) = tl (m_referenceCounter Q)"
      by (cases "m_referenceCounter Q") simp_all
    have "View_pop v h = Inr (m_impl Q ! m_idx V,
           h\<lparr>queues := (queues h)(q \<mapsto> Q\<lparr>m_impl := tl (m_impl Q),
                       m_referenceCounter := tl ((m_referenceCounter Q)[0 := 0])\<rparr>),
             views := (\<lambda>w. if w \<in> m_views Q
                then map_option (\<lambda>W. W\<lparr>m_idx := dec_size_t (m_idx W)\<rparr>)
                       (((views h)(v \<mapsto> V\<lparr>m_idx := Suc 0\<rparr>)) w)
                else ((views h)(v \<mapsto> V\<lparr>m_idx := Suc 0\<rparr>)) w)\<rparr>)"
      using assms(2-4) z c len ne alive i
      by (simp add: View_pop_def lock_def begin_of_def end_of_def decreaseReferenceCount_def
            Let_def dec_size_t_def cong: if_cong)
    then show ?thesis
      unfolding veq tl0 by simp
  qed
qed

lemma wf_queue_cong:
  assumes "\<forall>w \<in> m_views Q. views h' w = views h w"
  shows "wf_queue h' q Q = wf_queue h q Q"
proof -
  have i: "\<And>w. w \<in> m_views Q \<Longrightarrow> idx_of h' w = idx_of h w"
    using assms by (simp add: idx_of_def)
  have s: "\<And>i. {w \<in> m_views Q. idx_of h' w \<le> i} = {w \<in> m_views Q. idx_of h w \<le> i}"
    using i by auto
  show ?thesis
    unfolding wf_queue_def s using assms by simp
qed

lemma wf_pop_keep:
  assumes w: "wf h" and V: "views h v = Some V" and mq: "m_queue V = Some q"
    and Q: "queues h q = Some Q"
    and i: "m_idx V < length (m_impl Q)" and c: "m_referenceCounter Q ! m_idx V \<noteq> 1"
  shows "wf (h\<lparr>views := (views h)(v \<mapsto> V\<lparr>m_idx := m_idx V + 1\<rparr>),
             queues := (queues h)(q \<mapsto> Q\<lparr>m_referenceCounter :=
                (m_referenceCounter Q)[m_idx V := m_referenceCounter Q ! m_idx V - 1]\<rparr>)\<rparr>)"
proof -
  define Q1 where "Q1 = Q\<lparr>m_referenceCounter :=
                (m_referenceCounter Q)[m_idx V := m_referenceCounter Q ! m_idx V - 1]\<rparr>"
  define h1 where "h1 = h\<lparr>views := (views h)(v \<mapsto> V\<lparr>m_idx := m_idx V + 1\<rparr>),
             queues := (queues h)(q \<mapsto> Q1)\<rparr>"
  have Q1s: "m_impl Q1 = m_impl Q" "m_views Q1 = m_views Q"
    "m_referenceCounter Q1 = (m_referenceCounter Q)[m_idx V := m_referenceCounter Q ! m_idx V - 1]"
    by (simp_all add: Q1_def)
  have h1s: "views h1 = (views h)(v \<mapsto> V\<lparr>m_idx := m_idx V + 1\<rparr>)"
    "queues h1 = (queues h)(q \<mapsto> Q1)" "next_queue h1 = next_queue h"
    by (simp_all add: h1_def)
  from w V mq Q have wq: "wf_queue h q Q" and vin: "v \<in> m_views Q"
    by (blast dest: wf_registered)+
  have fin: "finite (m_views Q)" using wq by (simp add: wf_queue_def)
  have len: "length (m_referenceCounter Q) = length (m_impl Q)" using wq by (rule wf_queue_len)
  have pos: "0 < m_referenceCounter Q ! m_idx V" using wq i by (rule wf_queue_pos)
  have idx': "\<And>w. idx_of h1 w = (if w = v then m_idx V + 1 else idx_of h w)"
    by (simp add: idx_of_def h1s)
  have cnt: "\<And>j. j < length (m_impl Q) \<Longrightarrow>
      m_referenceCounter Q ! j = card {w \<in> m_views Q. idx_of h w \<le> j} \<and> 0 < m_referenceCounter Q ! j"
    using wq unfolding wf_queue_def by blast
  have wq': "wf_queue h1 q Q1"
    unfolding wf_queue_def
  proof (intro conjI allI impI ballI)
    show "finite (m_views Q1)" using fin by (simp add: Q1s)
    show "length (m_referenceCounter Q1) = length (m_impl Q1)" using len by (simp add: Q1s)
  next
    fix w W assume "w \<in> m_views Q1" and W: "views h1 w = Some W"
    then have win: "w \<in> m_views Q" by (simp add: Q1s)
    show "m_queue W = Some q" and "m_idx W \<le> length (m_impl Q1)"
      using W V mq i wf_queue_member[OF wq win]
      by (cases "w = v"; auto simp: Q1s h1s)+
  next
    fix j assume "j < length (m_impl Q1)"
    then have j: "j < length (m_impl Q)" by (simp add: Q1s)
    show "m_referenceCounter Q1 ! j = card {w \<in> m_views Q1. idx_of h1 w \<le> j}"
    proof (cases "j = m_idx V")
      case True
      have "{w \<in> m_views Q. idx_of h1 w \<le> j} = {w \<in> m_views Q. idx_of h w \<le> j} - {v}"
        using True V by (auto simp: idx')
      moreover have "v \<in> {w \<in> m_views Q. idx_of h w \<le> j}" using vin True V by simp
      moreover have "finite {w \<in> m_views Q. idx_of h w \<le> j}" using fin by simp
      ultimately have "card {w \<in> m_views Q. idx_of h1 w \<le> j}
          = card {w \<in> m_views Q. idx_of h w \<le> j} - 1"
        by (simp add: card_Diff_singleton)
      then show ?thesis using True cnt[OF j] len i by (simp add: Q1s)
    next
      case False
      have "{w \<in> m_views Q. idx_of h1 w \<le> j} = {w \<in> m_views Q. idx_of h w \<le> j}"
        using False V by (auto simp: idx')
      then show ?thesis using False cnt[OF j] by (simp add: Q1s)
    qed
    show "0 < m_referenceCounter Q1 ! j"
    proof (cases "j = m_idx V")
      case True
      then show ?thesis using pos c len i by (simp add: Q1s)
    next
      case False
      then show ?thesis using cnt[OF j] by (simp add: Q1s)
    qed
  qed
  have other: "\<And>q' Q'. q' \<noteq> q \<Longrightarrow> queues h q' = Some Q' \<Longrightarrow> wf_queue h1 q' Q'"
  proof -
    fix q' Q' assume ne: "q' \<noteq> q" and Q': "queues h q' = Some Q'"
    have wq0: "wf_queue h q' Q'" using w Q' unfolding wf_def by blast
    have "v \<notin> m_views Q'"
    proof
      assume "v \<in> m_views Q'"
      from wf_queue_member[OF wq0 this V] mq ne show False by simp
    qed
    then have "\<forall>w \<in> m_views Q'. views h1 w = views h w" by (auto simp: h1s)
    then show "wf_queue h1 q' Q'" using wq0 wf_queue_cong by blast
  qed
  have "wf h1"
    unfolding wf_def
  proof (intro conjI allI impI)
    fix q' Q' assume a: "queues h1 q' = Some Q'"
    show "wf_queue h1 q' Q'"
    proof (cases "q' = q")
      case True
      with a have "Q' = Q1" by (simp add: h1s)
      with wq' True show ?thesis by simp
    next
      case False
      with a have "queues h q' = Some Q'" by (simp add: h1s)
      with other False show ?thesis by blast
    qed
    show "q' < next_queue h1"
      using a w Q unfolding wf_def by (cases "q' = q") (auto simp: h1s)
  next
    fix w W q' assume a: "views h1 w = Some W \<and> m_queue W = Some q'"
    then obtain W0 where W0: "views h w = Some W0" "m_queue W0 = Some q'"
      using V by (cases "w = v") (auto simp: h1s)
    then show "q' < next_queue h1" using w unfolding wf_def by (auto simp: h1s)
    fix Q' assume "queues h1 q' = Some Q'"
    then have "\<exists>Q0. queues h q' = Some Q0 \<and> m_views Q' = m_views Q0"
      using Q Q1s(2) by (cases "q' = q") (auto simp: h1s)
    then show "w \<in> m_views Q'" using w W0 unfolding wf_def by auto
  qed
  then show ?thesis by (simp add: h1_def Q1_def)
qed

lemma wf_pop_evict:
  assumes w: "wf h" and V: "views h v = Some V" and mq: "m_queue V = Some q"
    and Q: "queues h q = Some Q"
    and i: "m_idx V < length (m_impl Q)" and c: "m_referenceCounter Q ! m_idx V = 1"
  shows "wf (h\<lparr>views := (\<lambda>w. if w \<in> m_views Q - {v}
                              then map_option (\<lambda>W. W\<lparr>m_idx := m_idx W - 1\<rparr>) (views h w)
                              else views h w),
             queues := (queues h)(q \<mapsto> Q\<lparr>m_impl := tl (m_impl Q),
                                           m_referenceCounter := tl (m_referenceCounter Q)\<rparr>)\<rparr>)"
proof -
  define Q2 where "Q2 = Q\<lparr>m_impl := tl (m_impl Q),
                           m_referenceCounter := tl (m_referenceCounter Q)\<rparr>"
  define h2 where "h2 = h\<lparr>views := (\<lambda>w. if w \<in> m_views Q - {v}
                              then map_option (\<lambda>W. W\<lparr>m_idx := m_idx W - 1\<rparr>) (views h w)
                              else views h w),
             queues := (queues h)(q \<mapsto> Q2)\<rparr>"
  have Q2s: "m_impl Q2 = tl (m_impl Q)" "m_views Q2 = m_views Q"
    "m_referenceCounter Q2 = tl (m_referenceCounter Q)"
    by (simp_all add: Q2_def)
  have h2s: "views h2 = (\<lambda>w. if w \<in> m_views Q - {v}
                              then map_option (\<lambda>W. W\<lparr>m_idx := m_idx W - 1\<rparr>) (views h w)
                              else views h w)"
    "queues h2 = (queues h)(q \<mapsto> Q2)" "next_queue h2 = next_queue h"
    by (simp_all add: h2_def)
  from w V mq Q have wq: "wf_queue h q Q" and vin: "v \<in> m_views Q"
    by (blast dest: wf_registered)+
  have z: "m_idx V = 0" and others: "\<forall>w \<in> m_views Q - {v}. 0 < idx_of h w"
    and all_alive: "\<forall>w \<in> m_views Q. views h w \<noteq> None"
    using View_pop_evict(2,3,4)[OF w V mq Q i c] by blast+
  have fin: "finite (m_views Q)" using wq by (simp add: wf_queue_def)
  have len: "length (m_referenceCounter Q) = length (m_impl Q)" using wq by (rule wf_queue_len)
  have idx2: "\<And>w. idx_of h2 w = (if w \<in> m_views Q - {v} then idx_of h w - 1 else idx_of h w)"
    by (auto simp: idx_of_def h2s split: option.splits)
  have cnt: "\<And>j. j < length (m_impl Q) \<Longrightarrow>
      m_referenceCounter Q ! j = card {w \<in> m_views Q. idx_of h w \<le> j} \<and> 0 < m_referenceCounter Q ! j"
    using wq unfolding wf_queue_def by blast
  have wq2: "wf_queue h2 q Q2"
    unfolding wf_queue_def
  proof (intro conjI allI impI ballI)
    show "finite (m_views Q2)" using fin by (simp add: Q2s)
    show "length (m_referenceCounter Q2) = length (m_impl Q2)" using len by (simp add: Q2s)
  next
    fix u W2 assume "u \<in> m_views Q2" and W2: "views h2 u = Some W2"
    then have uin: "u \<in> m_views Q" by (simp add: Q2s)
    then obtain W where W0: "views h u = Some W" using all_alive by blast
    from wf_queue_member[OF wq uin W0]
    have W: "m_queue W = Some q" "m_idx W \<le> length (m_impl Q)" by simp_all
    have "m_queue W2 = Some q \<and> m_idx W2 \<le> length (m_impl Q2)"
    proof (cases "u = v")
      case True
      then show ?thesis using V mq z W2 by (simp add: h2s Q2s)
    next
      case False
      have "0 < idx_of h u" using others uin False by blast
      then have "0 < m_idx W" using W0 by (simp add: idx_of_def)
      then show ?thesis using False uin W W0 W2 by (auto simp: h2s Q2s)
    qed
    then show "m_queue W2 = Some q" and "m_idx W2 \<le> length (m_impl Q2)" by simp_all
  next
    fix j assume "j < length (m_impl Q2)"
    then have j: "Suc j < length (m_impl Q)" by (simp add: Q2s)
    have nth: "m_referenceCounter Q2 ! j = m_referenceCounter Q ! Suc j"
      using j len by (simp add: Q2s nth_tl)
    have "{w \<in> m_views Q. idx_of h2 w \<le> j} = {w \<in> m_views Q. idx_of h w \<le> Suc j}"
    proof (rule Collect_cong)
      fix u
      show "(u \<in> m_views Q \<and> idx_of h2 u \<le> j) = (u \<in> m_views Q \<and> idx_of h u \<le> Suc j)"
      proof (cases "u = v")
        case True
        then show ?thesis using V z by (simp add: idx2)
      next
        case False
        show ?thesis
        proof (cases "u \<in> m_views Q")
          case True
          with others False have "0 < idx_of h u" by blast
          then show ?thesis using True False by (simp add: idx2) arith
        next
          case False
          then show ?thesis by simp
        qed
      qed
    qed
    then show "m_referenceCounter Q2 ! j = card {w \<in> m_views Q2. idx_of h2 w \<le> j}"
      using nth cnt[OF j] by (simp add: Q2s)
    show "0 < m_referenceCounter Q2 ! j" using nth cnt[OF j] by simp
  qed
  have other: "\<And>q' Q'. q' \<noteq> q \<Longrightarrow> queues h q' = Some Q' \<Longrightarrow> wf_queue h2 q' Q'"
  proof -
    fix q' Q' assume ne: "q' \<noteq> q" and Q': "queues h q' = Some Q'"
    have wq0: "wf_queue h q' Q'" using w Q' unfolding wf_def by blast
    have "\<forall>u \<in> m_views Q'. u \<notin> m_views Q"
    proof
      fix u assume "u \<in> m_views Q'"
      then have uq': "u \<in> m_views Q'" .
      show "u \<notin> m_views Q"
      proof
        assume uq: "u \<in> m_views Q"
        then obtain W where W: "views h u = Some W" using all_alive by blast
        from wf_queue_member[OF wq uq W] wf_queue_member[OF wq0 uq' W] ne
        show False by simp
      qed
    qed
    then have "\<forall>u \<in> m_views Q'. views h2 u = views h u" by (auto simp: h2s)
    then show "wf_queue h2 q' Q'" using wq0 wf_queue_cong by blast
  qed
  have "wf h2"
    unfolding wf_def
  proof (intro conjI allI impI)
    fix q' Q' assume a: "queues h2 q' = Some Q'"
    show "wf_queue h2 q' Q'"
    proof (cases "q' = q")
      case True
      with a have "Q' = Q2" by (simp add: h2s)
      with wq2 True show ?thesis by simp
    next
      case False
      with a have "queues h q' = Some Q'" by (simp add: h2s)
      with other False show ?thesis by blast
    qed
    show "q' < next_queue h2"
      using a w Q unfolding wf_def by (cases "q' = q") (auto simp: h2s)
  next
    fix u W q' assume a: "views h2 u = Some W \<and> m_queue W = Some q'"
    then obtain W0 where W0: "views h u = Some W0" "m_queue W0 = Some q'"
      by (auto simp: h2s split: if_splits)
    then show "q' < next_queue h2" using w unfolding wf_def by (auto simp: h2s)
    fix Q' assume "queues h2 q' = Some Q'"
    then have "\<exists>Q0. queues h q' = Some Q0 \<and> m_views Q' = m_views Q0"
      using Q Q2s(2) by (cases "q' = q") (auto simp: h2s)
    then show "u \<in> m_views Q'" using w W0 unfolding wf_def by auto
  qed
  then show ?thesis by (simp add: h2_def Q2_def)
qed

lemma wf_empty_heap: "wf empty_heap"
  by (simp add: wf_def empty_heap_def)

lemma wf_queue_empty_Queue: "wf_queue h q empty_Queue"
  by (simp add: wf_queue_def empty_Queue_def)

lemma wf_make:
  assumes w: "wf h"
  shows "wf (snd (make h))"
proof -
  define h1 where "h1 = snd (make h)"
  have h1s: "views h1 = views h" "queues h1 = (queues h)(next_queue h \<mapsto> empty_Queue)"
    "next_queue h1 = Suc (next_queue h)"
    by (simp_all add: h1_def make_def)
  have fresh: "queues h (next_queue h) = None"
    using w unfolding wf_def by (cases "queues h (next_queue h)") auto
  have "wf h1"
    unfolding wf_def
  proof (intro conjI allI impI)
    fix q Q assume a: "queues h1 q = Some Q"
    show "wf_queue h1 q Q"
    proof (cases "q = next_queue h")
      case True
      with a show ?thesis by (simp add: h1s wf_queue_empty_Queue)
    next
      case False
      with a have "wf_queue h q Q" using w unfolding wf_def by (simp add: h1s)
      moreover have "\<forall>u \<in> m_views Q. views h1 u = views h u" by (simp add: h1s)
      ultimately show ?thesis using wf_queue_cong by blast
    qed
    show "q < next_queue h1"
      using a w unfolding wf_def by (cases "q = next_queue h") (auto simp: h1s less_Suc_eq)
  next
    fix v V q assume a: "views h1 v = Some V \<and> m_queue V = Some q"
    then have lt: "q < next_queue h" using w unfolding wf_def by (auto simp: h1s)
    then show "q < next_queue h1" by (simp add: h1s)
    fix Q assume "queues h1 q = Some Q"
    with lt have "queues h q = Some Q" by (simp add: h1s)
    with a show "v \<in> m_views Q" using w unfolding wf_def by (auto simp: h1s)
  qed
  then show ?thesis by (simp add: h1_def)
qed

lemma make_fresh:
  "wf h \<Longrightarrow> queues h (fst (make h)) = None"
  unfolding wf_def make_def by (cases "queues h (next_queue h)") auto

lemma view_eq:
  "queues h q = Some Q \<Longrightarrow>
   view q v h = Inr (h\<lparr>views := (views h)(v \<mapsto> \<lparr>m_queue = Some q, m_idx = length (m_impl Q)\<rparr>),
                      queues := (queues h)(q \<mapsto> Q\<lparr>m_views := insert v (m_views Q)\<rparr>)\<rparr>)"
  by (simp add: view_def View_of_Queue_def on_queue_def registerView_def)

lemma wf_view:
  assumes w: "wf h" and Q: "queues h q = Some Q" and fresh: "unused v h"
  shows "wf (h\<lparr>views := (views h)(v \<mapsto> \<lparr>m_queue = Some q, m_idx = length (m_impl Q)\<rparr>),
                      queues := (queues h)(q \<mapsto> Q\<lparr>m_views := insert v (m_views Q)\<rparr>)\<rparr>)"
proof -
  define Q1 where "Q1 = Q\<lparr>m_views := insert v (m_views Q)\<rparr>"
  define h1 where "h1 = h\<lparr>views := (views h)(v \<mapsto> \<lparr>m_queue = Some q, m_idx = length (m_impl Q)\<rparr>),
                      queues := (queues h)(q \<mapsto> Q1)\<rparr>"
  have Q1s: "m_impl Q1 = m_impl Q" "m_views Q1 = insert v (m_views Q)"
    "m_referenceCounter Q1 = m_referenceCounter Q"
    by (simp_all add: Q1_def)
  have h1s: "views h1 = (views h)(v \<mapsto> \<lparr>m_queue = Some q, m_idx = length (m_impl Q)\<rparr>)"
    "queues h1 = (queues h)(q \<mapsto> Q1)" "next_queue h1 = next_queue h"
    by (simp_all add: h1_def)
  have wq: "wf_queue h q Q" using w Q unfolding wf_def by blast
  have notin: "\<And>q' Q'. queues h q' = Some Q' \<Longrightarrow> v \<notin> m_views Q'"
    using fresh unfolding unused_def by blast
  have fin: "finite (m_views Q)" using wq by (simp add: wf_queue_def)
  have cnt: "\<And>j. j < length (m_impl Q) \<Longrightarrow>
      m_referenceCounter Q ! j = card {w \<in> m_views Q. idx_of h w \<le> j} \<and> 0 < m_referenceCounter Q ! j"
    using wq unfolding wf_queue_def by blast
  have idx1: "\<And>u. idx_of h1 u = (if u = v then length (m_impl Q) else idx_of h u)"
    by (simp add: idx_of_def h1s)
  have wq1: "wf_queue h1 q Q1"
    unfolding wf_queue_def
  proof (intro conjI allI impI ballI)
    show "finite (m_views Q1)" using fin by (simp add: Q1s)
    show "length (m_referenceCounter Q1) = length (m_impl Q1)"
      using wf_queue_len[OF wq] by (simp add: Q1s)
  next
    fix u W assume u: "u \<in> m_views Q1" and W: "views h1 u = Some W"
    have "m_queue W = Some q \<and> m_idx W \<le> length (m_impl Q1)"
    proof (cases "u = v")
      case True
      then show ?thesis using W by (auto simp: h1s Q1s)
    next
      case False
      with u W have "u \<in> m_views Q" "views h u = Some W" by (simp_all add: Q1s h1s)
      from wf_queue_member[OF wq this] show ?thesis by (simp add: Q1s)
    qed
    then show "m_queue W = Some q" and "m_idx W \<le> length (m_impl Q1)" by simp_all
  next
    fix j assume "j < length (m_impl Q1)"
    then have j: "j < length (m_impl Q)" by (simp add: Q1s)
    have "{w \<in> insert v (m_views Q). idx_of h1 w \<le> j} = {w \<in> m_views Q. idx_of h w \<le> j}"
      using j notin[OF Q] by (auto simp: idx1)
    then show "m_referenceCounter Q1 ! j = card {w \<in> m_views Q1. idx_of h1 w \<le> j}"
      using cnt[OF j] by (simp add: Q1s)
    show "0 < m_referenceCounter Q1 ! j" using cnt[OF j] by (simp add: Q1s)
  qed
  have "wf h1"
    unfolding wf_def
  proof (intro conjI allI impI)
    fix q' Q' assume a: "queues h1 q' = Some Q'"
    show "wf_queue h1 q' Q'"
    proof (cases "q' = q")
      case True
      with a wq1 show ?thesis by (simp add: h1s)
    next
      case False
      with a have Q': "queues h q' = Some Q'" by (simp add: h1s)
      then have "wf_queue h q' Q'" using w unfolding wf_def by blast
      moreover have "\<forall>u \<in> m_views Q'. views h1 u = views h u"
        using notin[OF Q'] by (auto simp: h1s)
      ultimately show ?thesis using wf_queue_cong by blast
    qed
    show "q' < next_queue h1"
      using a w Q unfolding wf_def by (cases "q' = q") (auto simp: h1s)
  next
    fix u W q' assume a: "views h1 u = Some W \<and> m_queue W = Some q'"
    show "q' < next_queue h1"
      using a w Q unfolding wf_def by (cases "u = v") (auto simp: h1s)
    fix Q' assume b: "queues h1 q' = Some Q'"
    show "u \<in> m_views Q'"
    proof (cases "u = v")
      case True
      with a b have "q' = q" "Q' = Q1" by (auto simp: h1s)
      with True show ?thesis by (simp add: Q1s)
    next
      case False
      with a have W: "views h u = Some W" "m_queue W = Some q'" by (simp_all add: h1s)
      show ?thesis
      proof (cases "q' = q")
        case True
        with W Q w have uin: "u \<in> m_views Q" unfolding wf_def by blast
        from True b have "Q' = Q1" by (simp add: h1s)
        then show ?thesis using uin by (simp add: Q1s)
      next
        case False
        with b have "queues h q' = Some Q'" by (simp add: h1s)
        with W w show ?thesis unfolding wf_def by blast
      qed
    qed
  qed
  then show ?thesis by (simp add: h1_def Q1_def)
qed

lemma wf_push:
  assumes w: "wf h" and Q: "queues h q = Some Q"
  shows "wf (h\<lparr>queues := (queues h)(q \<mapsto> push x Q)\<rparr>)"
proof (cases "m_views Q = {}")
  case True
  then have "push x Q = Q" by (simp add: push_def)
  moreover have "h\<lparr>queues := (queues h)(q \<mapsto> Q)\<rparr> = h" using Q by (simp add: fun_upd_idem)
  ultimately show ?thesis using w by simp
next
  case ne: False
  define Q1 where "Q1 = push x Q"
  define h1 where "h1 = h\<lparr>queues := (queues h)(q \<mapsto> Q1)\<rparr>"
  have Q1s: "m_impl Q1 = m_impl Q @ [x]" "m_views Q1 = m_views Q"
    "m_referenceCounter Q1 = m_referenceCounter Q @ [card (m_views Q)]"
    using ne by (simp_all add: Q1_def push_def)
  have h1s: "views h1 = views h" "queues h1 = (queues h)(q \<mapsto> Q1)" "next_queue h1 = next_queue h"
    by (simp_all add: h1_def)
  have wq: "wf_queue h q Q" using w Q unfolding wf_def by blast
  have fin: "finite (m_views Q)" using wq by (simp add: wf_queue_def)
  have len: "length (m_referenceCounter Q) = length (m_impl Q)" by (rule wf_queue_len[OF wq])
  have cnt: "\<And>j. j < length (m_impl Q) \<Longrightarrow>
      m_referenceCounter Q ! j = card {w \<in> m_views Q. idx_of h w \<le> j} \<and> 0 < m_referenceCounter Q ! j"
    using wq unfolding wf_queue_def by blast
  have idx1: "\<And>u. idx_of h1 u = idx_of h u" by (simp add: idx_of_def h1s)
  have wq1: "wf_queue h1 q Q1"
    unfolding wf_queue_def
  proof (intro conjI allI impI ballI)
    show "finite (m_views Q1)" using fin by (simp add: Q1s)
    show "length (m_referenceCounter Q1) = length (m_impl Q1)" using len by (simp add: Q1s)
  next
    fix u W assume "u \<in> m_views Q1" and "views h1 u = Some W"
    then have "u \<in> m_views Q" "views h u = Some W" by (simp_all add: Q1s h1s)
    from wf_queue_member[OF wq this]
    show "m_queue W = Some q" and "m_idx W \<le> length (m_impl Q1)"
      by (auto simp: Q1s)
  next
    fix j assume j: "j < length (m_impl Q1)"
    show "m_referenceCounter Q1 ! j = card {w \<in> m_views Q1. idx_of h1 w \<le> j}"
    proof (cases "j < length (m_impl Q)")
      case True
      then show ?thesis using cnt[OF True] len by (simp add: Q1s idx1 nth_append)
    next
      case False
      with j have je: "j = length (m_impl Q)" by (simp add: Q1s)
      have "\<And>u. u \<in> m_views Q \<Longrightarrow> idx_of h u \<le> j"
      proof -
        fix u assume u: "u \<in> m_views Q"
        show "idx_of h u \<le> j"
        proof (cases "views h u")
          case None
          then show ?thesis by (simp add: idx_of_def)
        next
          case (Some W)
          from wf_queue_member[OF wq u Some] je Some show ?thesis by (simp add: idx_of_def)
        qed
      qed
      then have "{w \<in> m_views Q. idx_of h w \<le> j} = m_views Q" by auto
      then show ?thesis using je len by (simp add: Q1s idx1 nth_append)
    qed
    show "0 < m_referenceCounter Q1 ! j"
    proof (cases "j < length (m_impl Q)")
      case True
      then show ?thesis using cnt[OF True] len by (simp add: Q1s nth_append)
    next
      case False
      with j have je: "j = length (m_impl Q)" by (simp add: Q1s)
      have "0 < card (m_views Q)" using fin ne by (simp add: card_gt_0_iff)
      then show ?thesis using je len by (simp add: Q1s nth_append)
    qed
  qed
  have "wf h1"
    unfolding wf_def
  proof (intro conjI allI impI)
    fix q' Q' assume a: "queues h1 q' = Some Q'"
    show "wf_queue h1 q' Q'"
    proof (cases "q' = q")
      case True
      with a wq1 show ?thesis by (simp add: h1s)
    next
      case False
      with a have "wf_queue h q' Q'" using w unfolding wf_def by (simp add: h1s)
      moreover have "\<forall>u \<in> m_views Q'. views h1 u = views h u" by (simp add: h1s)
      ultimately show ?thesis using wf_queue_cong by blast
    qed
    show "q' < next_queue h1"
      using a w Q unfolding wf_def by (cases "q' = q") (auto simp: h1s)
  next
    fix u W q' assume a: "views h1 u = Some W \<and> m_queue W = Some q'"
    then show "q' < next_queue h1" using w unfolding wf_def by (auto simp: h1s)
    fix Q' assume "queues h1 q' = Some Q'"
    then have "\<exists>Q0. queues h q' = Some Q0 \<and> m_views Q' = m_views Q0"
      using Q Q1s(2) by (cases "q' = q") (auto simp: h1s)
    then show "u \<in> m_views Q'" using w a unfolding wf_def by (auto simp: h1s)
  qed
  then show ?thesis by (simp add: h1_def Q1_def)
qed

subsection \<open>Example stores and the circuit loop\<close>

lemma wf_single_heap: "wf single_heap"
  unfolding wf_def wf_queue_def single_heap_def
  by (auto simp: idx_of_def split: if_splits)

lemma Circuit_tick_append:
  "Circuit_tick cs s = Inr s' \<Longrightarrow> Circuit_tick (cs @ ds) s = Circuit_tick ds s'"
  by (induction cs arbitrary: s) (auto split: sum.splits)

subsection \<open>Views without a live queue\<close>

lemma dangling_ops:
  assumes "views h v = Some V" and "lock h V = None"
  shows "View_pop v h = Inl DanglingView" "View_waitFor d v h = Inl DanglingView"
    "View_size v h = Inl DanglingView" "View_clear v h = Inl DanglingView"
    "View_begin v h = Inl DanglingView" "View_end v h = Inl DanglingView"
    "pullInput v h = Inl DanglingView"
    "tick_consumer (pullInput v) impl (h, u) = Inl DanglingView"
  using assms
  by (simp_all add: View_pop_def View_waitFor_def View_size_def View_clear_def View_begin_def
        View_end_def pullInput_def tick_consumer_def)

lemma default_ops:
  "views (View_default v h) v = Some \<lparr>m_queue = None, m_idx = 0\<rparr>"
  "lock (View_default v h) \<lparr>m_queue = None, m_idx = 0\<rparr> = None"
  by (simp_all add: View_default_def lock_def)

subsection \<open>The range a view covers\<close>

lemma attachedD:
  "attached v h \<Longrightarrow> \<exists>V q Q. views h v = Some V \<and> m_queue V = Some q \<and> queues h q = Some Q"
  by (auto simp: attached_def lock_def split: option.splits)

lemma attachedI:
  "views h v = Some V \<Longrightarrow> m_queue V = Some q \<Longrightarrow> queues h q = Some Q \<Longrightarrow> attached v h"
  by (simp add: attached_def lock_def)

lemma covered_eq:
  "views h v = Some V \<Longrightarrow> m_queue V = Some q \<Longrightarrow> queues h q = Some Q
     \<Longrightarrow> covered v h = drop (m_idx V) (m_impl Q)"
  by (simp add: covered_def lock_def)

lemma covered_nonempty:
  assumes "covered v h \<noteq> []"
  shows "\<exists>V q Q. views h v = Some V \<and> m_queue V = Some q \<and> queues h q = Some Q
            \<and> m_idx V < length (m_impl Q)"
  using assms by (auto simp: covered_def lock_def split: option.splits)

lemma covered_not_attached: "\<not> attached v h \<Longrightarrow> covered v h = []"
  by (auto simp: covered_def attached_def split: option.splits)

lemma View_size_covered:
  assumes "wf h" and "attached v h"
  shows "View_size v h = Inr (length (covered v h))"
proof -
  from attachedD[OF assms(2)] obtain V q Q where
    V: "views h v = Some V" "m_queue V = Some q" "queues h q = Some Q" by blast
  with assms(1) have "v \<in> m_views Q" "wf_queue h q Q" by (blast dest: wf_registered)+
  from wf_queue_member[OF this(2,1) V(1)] have "m_idx V \<le> length (m_impl Q)" by simp
  then show ?thesis using V
    by (simp add: View_size_def lock_def begin_of_def end_of_def covered_def)
qed

lemma pop_covered_keep:
  assumes V: "views h v = Some V" and mq: "m_queue V = Some q" and Q: "queues h q = Some Q"
    and i: "m_idx V < length (m_impl Q)"
  defines "h' \<equiv> h\<lparr>views := (views h)(v \<mapsto> V\<lparr>m_idx := m_idx V + 1\<rparr>),
             queues := (queues h)(q \<mapsto> Q\<lparr>m_referenceCounter :=
                (m_referenceCounter Q)[m_idx V := m_referenceCounter Q ! m_idx V - 1]\<rparr>)\<rparr>"
  shows "covered v h' = tl (covered v h)"
    and "\<And>w. w \<noteq> v \<Longrightarrow> covered w h' = covered w h"
    and "\<And>w. attached w h' = attached w h"
proof -
  show "covered v h' = tl (covered v h)"
    using V mq Q by (simp add: h'_def covered_def lock_def drop_Suc tl_drop)
  show "\<And>w. w \<noteq> v \<Longrightarrow> covered w h' = covered w h"
    using Q by (auto simp: h'_def covered_def lock_def split: option.splits)
  show "\<And>w. attached w h' = attached w h"
    using V mq Q by (auto simp: h'_def attached_def lock_def split: option.splits)
qed

lemma pop_covered_evict:
  assumes w: "wf h" and V: "views h v = Some V" and mq: "m_queue V = Some q"
    and Q: "queues h q = Some Q"
    and i: "m_idx V < length (m_impl Q)" and c: "m_referenceCounter Q ! m_idx V = 1"
  defines "h' \<equiv> h\<lparr>views := (\<lambda>w. if w \<in> m_views Q - {v}
                              then map_option (\<lambda>W. W\<lparr>m_idx := m_idx W - 1\<rparr>) (views h w)
                              else views h w),
             queues := (queues h)(q \<mapsto> Q\<lparr>m_impl := tl (m_impl Q),
                                           m_referenceCounter := tl (m_referenceCounter Q)\<rparr>)\<rparr>"
  shows "covered v h' = tl (covered v h)"
    and "\<And>u. u \<noteq> v \<Longrightarrow> covered u h' = covered u h"
    and "\<And>u. attached u h' = attached u h"
proof -
  have z: "m_idx V = 0" and others: "\<forall>u \<in> m_views Q - {v}. 0 < idx_of h u"
    and all_alive: "\<forall>u \<in> m_views Q. views h u \<noteq> None"
    using View_pop_evict(2,3,4)[OF w V mq Q i c] by blast+
  from w V mq Q have wq: "wf_queue h q Q" by (blast dest: wf_registered)
  show "covered v h' = tl (covered v h)"
    using V mq Q z by (simp add: h'_def covered_def lock_def)
  show "\<And>u. attached u h' = attached u h"
    using Q by (auto simp: h'_def attached_def lock_def split: option.splits)
  show "\<And>u. u \<noteq> v \<Longrightarrow> covered u h' = covered u h"
  proof -
    fix u assume ne: "u \<noteq> v"
    show "covered u h' = covered u h"
    proof (cases "u \<in> m_views Q")
      case True
      from all_alive True obtain W where W0: "views h u = Some W" by blast
      with wf_queue_member[OF wq True] have W: "views h u = Some W" "m_queue W = Some q"
        by simp_all
      have "0 < idx_of h u" using others True ne by blast
      then have "0 < m_idx W" using W by (simp add: idx_of_def)
      then obtain n where n: "m_idx W = Suc n" by (cases "m_idx W") auto
      show ?thesis
        using True ne W Q n by (simp add: h'_def covered_def lock_def drop_Suc)
    next
      case False
      show ?thesis
      proof (cases "views h u")
        case None
        with False show ?thesis by (simp add: h'_def covered_def)
      next
        case (Some W)
        have "m_queue W \<noteq> Some q"
        proof
          assume "m_queue W = Some q"
          with w Some Q have "u \<in> m_views Q" unfolding wf_def by blast
          with False show False by simp
        qed
        with Some False show ?thesis
          by (auto simp: h'_def covered_def lock_def split: option.splits)
      qed
    qed
  qed
qed

lemma pop_covered:
  assumes w: "wf h" and ne: "covered v h \<noteq> []"
  shows "\<exists>h'. View_pop v h = Inr (hd (covered v h), h') \<and> wf h'
            \<and> covered v h' = tl (covered v h)
            \<and> (\<forall>u. u \<noteq> v \<longrightarrow> covered u h' = covered u h)
            \<and> (\<forall>u. attached u h' = attached u h)"
proof -
  from covered_nonempty[OF ne] obtain V q Q where
    V: "views h v = Some V" and mq: "m_queue V = Some q" and Q: "queues h q = Some Q"
    and i: "m_idx V < length (m_impl Q)" by blast
  have hd: "hd (covered v h) = m_impl Q ! m_idx V"
    using i by (simp add: covered_eq[OF V mq Q] hd_drop_conv_nth)
  show ?thesis
  proof (cases "m_referenceCounter Q ! m_idx V = 1")
    case True
    from View_pop_evict(1)[OF w V mq Q i True] wf_pop_evict[OF w V mq Q i True]
      pop_covered_evict[OF w V mq Q i True] hd
    show ?thesis by auto
  next
    case False
    from View_pop_keep[OF w V mq Q i False] wf_pop_keep[OF w V mq Q i False]
      pop_covered_keep[OF V mq Q i] hd
    show ?thesis by auto
  qed
qed

lemma view_covered:
  fixes v :: view_ptr
  assumes Q: "queues h q = Some Q"
  defines "h' \<equiv> h\<lparr>views := (views h)(v \<mapsto> \<lparr>m_queue = Some q, m_idx = length (m_impl Q)\<rparr>),
                      queues := (queues h)(q \<mapsto> Q\<lparr>m_views := insert v (m_views Q)\<rparr>)\<rparr>"
  shows "covered v h' = []" and "\<And>u. u \<noteq> v \<Longrightarrow> covered u h' = covered u h"
proof -
  show "covered v h' = []" by (simp add: h'_def covered_def lock_def)
  show "\<And>u. u \<noteq> v \<Longrightarrow> covered u h' = covered u h"
    using Q by (auto simp: h'_def covered_def lock_def split: option.splits)
qed

lemma push_covered:
  assumes w: "wf h" and Q: "queues h q = Some Q" and ne: "m_views Q \<noteq> {}"
  shows "covered u (h\<lparr>queues := (queues h)(q \<mapsto> push x Q)\<rparr>)
           = (if attached u h \<and> queue_of u h = Some q then covered u h @ [x] else covered u h)"
proof (cases "views h u")
  case None
  then show ?thesis by (simp add: covered_def attached_def)
next
  case (Some U)
  show ?thesis
  proof (cases "m_queue U = Some q")
    case True
    from wf_registered[OF w Some True Q] have "u \<in> m_views Q" "wf_queue h q Q" by simp_all
    from wf_queue_member[OF this(2,1) Some] have "m_idx U \<le> length (m_impl Q)" by simp
    then show ?thesis
      using Some True Q ne
      by (simp add: covered_def attached_def queue_of_def lock_def push_def)
  next
    case False
    then show ?thesis
      using Some Q
      by (auto simp: covered_def attached_def queue_of_def lock_def split: option.splits)
  qed
qed

lemma View_move_covered:
  assumes W: "views h other = Some W" and ne: "v \<noteq> other"
  shows "\<exists>h'. View_move v other h = Inr h' \<and> covered v h' = covered other h
             \<and> covered other h' = []"
proof (cases "lock h W")
  case None
  then show ?thesis
    using W ne
    by (auto simp: View_move_def Let_def covered_def lock_def split: option.splits)
next
  case (Some a)
  then obtain q Q where a: "a = (q, Q)" "m_queue W = Some q" "queues h q = Some Q"
    by (auto simp: lock_def split: option.splits)
  then show ?thesis
    using W ne by (simp add: View_move_def Let_def covered_def lock_def on_queue_def swapView_def)
qed

lemma View_copy_covered:
  assumes W: "views h other = Some W" and ne: "v \<noteq> other"
  shows "\<exists>h'. View_copy v other h = Inr h' \<and> covered v h' = covered other h
             \<and> covered other h' = covered other h"
proof (cases "lock h W")
  case None
  then show ?thesis
    using W ne
    by (auto simp: View_copy_def register_if_locked_def covered_def lock_def split: option.splits)
next
  case (Some a)
  then obtain q Q where a: "a = (q, Q)" "m_queue W = Some q" "queues h q = Some Q"
    by (auto simp: lock_def split: option.splits)
  then show ?thesis
    using W ne
    by (simp add: View_copy_def register_if_locked_def covered_def lock_def on_queue_def
          registerView_def)
qed

subsection \<open>Moved views, and the order of elements\<close>

lemma card_swap_member:
  assumes f: "finite A" and o: "other \<in> A" and v: "v \<notin> A"
  shows "card (insert v (A - {other})) = card A"
proof -
  have "card (insert v (A - {other})) = Suc (card (A - {other}))"
    using f v by simp
  also have "\<dots> = card A" by (rule card_Suc_Diff1[OF f o])
  finally show ?thesis .
qed

lemma View_move_wf:
  assumes w: "wf h" and W: "views h other = Some W" and un: "unused v h"
  shows "\<exists>h'. View_move v other h = Inr h' \<and> wf h'
           \<and> covered v h' = covered other h \<and> covered other h' = []
           \<and> (\<forall>u. u \<noteq> v \<and> u \<noteq> other \<longrightarrow> covered u h' = covered u h)
           \<and> (\<forall>q Q. m_queue W = Some q \<and> queues h q = Some Q \<longrightarrow>
                 queues h' q = Some (Q\<lparr>m_views := insert v (m_views Q) - {other}\<rparr>))"
proof -
  have vn: "views h v = None" and vm: "\<And>q Q. queues h q = Some Q \<Longrightarrow> v \<notin> m_views Q"
    using un by (auto simp: unused_def)
  have ne: "v \<noteq> other" using vn W by auto
  define V where "V = \<lparr>m_queue = m_queue W, m_idx = m_idx W\<rparr>"
  define h1 where "h1 = h\<lparr>views := (views h)(other \<mapsto> W\<lparr>m_queue := None\<rparr>, v \<mapsto> V)\<rparr>"
  have h1s: "views h1 v = Some V" "views h1 other = Some (W\<lparr>m_queue := None\<rparr>)"
    "\<And>u. u \<noteq> v \<Longrightarrow> u \<noteq> other \<Longrightarrow> views h1 u = views h u"
    "queues h1 = queues h" "next_queue h1 = next_queue h"
    using ne by (simp_all add: h1_def)
  have Vs: "m_queue V = m_queue W" "m_idx V = m_idx W" by (simp_all add: V_def)
  show ?thesis
  proof (cases "lock h W")
    case None
    have r: "View_move v other h = Inr h1"
      using W None
      by (auto simp: View_move_def Let_def lock_def h1_def V_def split: option.splits)
    have dead: "\<And>q. m_queue W = Some q \<Longrightarrow> queues h q = None"
      using None by (auto simp: lock_def split: option.splits)
    have notin: "\<And>q Q. queues h q = Some Q \<Longrightarrow> other \<notin> m_views Q"
    proof
      fix q Q assume Q: "queues h q = Some Q" and m: "other \<in> m_views Q"
      from w Q have "wf_queue h q Q" unfolding wf_def by blast
      from wf_queue_member[OF this m W] have "m_queue W = Some q" by simp
      with dead Q show False by simp
    qed
    have "wf h1"
      unfolding wf_def
    proof (intro conjI allI impI)
      fix q Q assume Q1: "queues h1 q = Some Q"
      then have Q: "queues h q = Some Q" by (simp add: h1s)
      from w Q have wq: "wf_queue h q Q" and lt: "q < next_queue h" unfolding wf_def by blast+
      have "wf_queue h1 q Q = wf_queue h q Q"
      proof (rule wf_queue_cong, rule ballI)
        fix u assume "u \<in> m_views Q"
        then have "u \<noteq> v" "u \<noteq> other" using vm[OF Q] notin[OF Q] by auto
        then show "views h1 u = views h u" by (rule h1s(3))
      qed
      then show "wf_queue h1 q Q" using wq by simp
      show "q < next_queue h1" using lt by (simp add: h1s)
    next
      fix u U q assume a: "views h1 u = Some U \<and> m_queue U = Some q"
      show "q < next_queue h1"
      proof (cases "u = v")
        case True
        then have "U = V" using a by (simp add: h1s)
        then have "m_queue W = Some q" using a by (simp add: Vs)
        then show ?thesis using w W unfolding wf_def by (auto simp: h1s)
      next
        case False
        then have "u \<noteq> other" using a h1s(2) by auto
        then have "views h u = Some U" using a False h1s(3) by simp
        then show ?thesis using w a unfolding wf_def by (auto simp: h1s)
      qed
    next
      fix u U q Q assume a: "views h1 u = Some U \<and> m_queue U = Some q"
        and Q1: "queues h1 q = Some Q"
      then have Q: "queues h q = Some Q" by (simp add: h1s)
      show "u \<in> m_views Q"
      proof (cases "u = v")
        case True
        then have "U = V" using a by (simp add: h1s)
        then have "m_queue W = Some q" using a by (simp add: Vs)
        with dead Q show ?thesis by simp
      next
        case False
        then have "u \<noteq> other" using a h1s(2) by auto
        then have "views h u = Some U" using a False h1s(3) by simp
        then show ?thesis using w a Q unfolding wf_def by blast
      qed
    qed
    moreover have "covered v h1 = covered other h"
      using W None by (auto simp: covered_def h1s Vs lock_def split: option.splits)
    moreover have "covered other h1 = []"
      by (simp add: covered_def h1s lock_def)
    moreover have "\<forall>u. u \<noteq> v \<and> u \<noteq> other \<longrightarrow> covered u h1 = covered u h"
      by (auto simp: covered_def h1s lock_def split: option.splits)
    moreover have "\<forall>q Q. m_queue W = Some q \<and> queues h q = Some Q \<longrightarrow>
                 queues h1 q = Some (Q\<lparr>m_views := insert v (m_views Q) - {other}\<rparr>)"
      using dead by auto
    ultimately show ?thesis using r by blast
  next
    case (Some a)
    then obtain q Q where mq: "m_queue W = Some q" and Q: "queues h q = Some Q"
      and a: "a = (q, Q)"
      by (auto simp: lock_def split: option.splits)
    define Q2 where "Q2 = Q\<lparr>m_views := insert v (m_views Q) - {other}\<rparr>"
    define h2 where "h2 = h1\<lparr>queues := (queues h1)(q \<mapsto> Q2)\<rparr>"
    have r: "View_move v other h = Inr h2"
      using W mq Q
      by (simp add: View_move_def Let_def lock_def on_queue_def swapView_def
            h2_def h1_def V_def Q2_def)
    from wf_registered[OF w W mq Q] have om: "other \<in> m_views Q" and wq: "wf_queue h q Q"
      by simp_all
    have vq: "v \<notin> m_views Q" by (rule vm[OF Q])
    have Q2s: "m_impl Q2 = m_impl Q" "m_referenceCounter Q2 = m_referenceCounter Q"
      "m_views Q2 = insert v (m_views Q - {other})"
      using ne by (auto simp: Q2_def)
    have h2s: "views h2 = views h1" "next_queue h2 = next_queue h"
      "queues h2 q = Some Q2" "\<And>q'. q' \<noteq> q \<Longrightarrow> queues h2 q' = queues h q'"
      by (simp_all add: h2_def h1s)
    have le: "m_idx W \<le> length (m_impl Q)" using wf_queue_member[OF wq om W] by simp
    have fin: "finite (m_views Q)" using wq by (simp add: wf_queue_def)
    have idx: "idx_of h2 v = idx_of h other"
      "\<And>u. u \<in> m_views Q - {other} \<Longrightarrow> idx_of h2 u = idx_of h u"
    proof -
      show "idx_of h2 v = idx_of h other" using W by (simp add: idx_of_def h2s h1s Vs)
      fix u assume "u \<in> m_views Q - {other}"
      then have "u \<noteq> v" "u \<noteq> other" using vq by auto
      then have "views h2 u = views h u" by (simp add: h2s h1s)
      then show "idx_of h2 u = idx_of h u" by (simp add: idx_of_def)
    qed
    have cnt: "\<And>i. card {u \<in> m_views Q2. idx_of h2 u \<le> i} = card {u \<in> m_views Q. idx_of h u \<le> i}"
    proof -
      fix i
      let ?A = "{u \<in> m_views Q. idx_of h u \<le> i}"
      have fA: "finite ?A" using fin by simp
      have vA: "v \<notin> ?A" using vq by simp
      show "card {u \<in> m_views Q2. idx_of h2 u \<le> i} = card ?A"
      proof (cases "idx_of h other \<le> i")
        case True
        then have oA: "other \<in> ?A" using om by simp
        have "{u \<in> m_views Q2. idx_of h2 u \<le> i} = insert v (?A - {other})"
          using True idx by (auto simp: Q2s)
        then show ?thesis using card_swap_member[OF fA oA vA] by simp
      next
        case False
        then have no: "\<And>x. idx_of h x \<le> i \<Longrightarrow> x \<noteq> other" by auto
        have "{u \<in> m_views Q2. idx_of h2 u \<le> i} = ?A"
          using False idx no by (auto simp: Q2s)
        then show ?thesis by simp
      qed
    qed
    have wq2: "wf_queue h2 q Q2"
      unfolding wf_queue_def
    proof (intro conjI ballI allI impI)
      show "finite (m_views Q2)" using fin by (simp add: Q2s)
      show "length (m_referenceCounter Q2) = length (m_impl Q2)"
        using wq by (simp add: Q2s wf_queue_def)
    next
      fix u U assume u: "u \<in> m_views Q2" and U: "views h2 u = Some U"
      show "m_queue U = Some q" "m_idx U \<le> length (m_impl Q2)"
      proof -
        show "m_queue U = Some q"
        proof (cases "u = v")
          case True
          then have "U = V" using U by (simp add: h2s h1s)
          then show ?thesis using mq by (simp add: Vs)
        next
          case False
          then have m: "u \<in> m_views Q" "u \<noteq> other" using u by (auto simp: Q2s)
          then have "views h u = Some U" using U False by (simp add: h2s h1s)
          from wf_queue_member[OF wq m(1) this] show ?thesis by simp
        qed
        show "m_idx U \<le> length (m_impl Q2)"
        proof (cases "u = v")
          case True
          then have "U = V" using U by (simp add: h2s h1s)
          then show ?thesis using le by (simp add: Vs Q2s)
        next
          case False
          then have m: "u \<in> m_views Q" "u \<noteq> other" using u by (auto simp: Q2s)
          then have "views h u = Some U" using U False by (simp add: h2s h1s)
          from wf_queue_member[OF wq m(1) this] show ?thesis by (simp add: Q2s)
        qed
      qed
    next
      fix i assume i: "i < length (m_impl Q2)"
      then have i': "i < length (m_impl Q)" by (simp add: Q2s)
      show "m_referenceCounter Q2 ! i = card {w \<in> m_views Q2. idx_of h2 w \<le> i}"
        using wf_queueD_count[OF wq i'] cnt by (simp add: Q2s)
      show "0 < m_referenceCounter Q2 ! i"
        using wf_queue_pos[OF wq i'] by (simp add: Q2s)
    qed
    have "wf h2"
      unfolding wf_def
    proof (intro conjI allI impI)
      fix q' Q' assume Q': "queues h2 q' = Some Q'"
      show "wf_queue h2 q' Q'"
      proof (cases "q' = q")
        case True
        then show ?thesis using Q' wq2 by (simp add: h2s)
      next
        case False
        then have Qh: "queues h q' = Some Q'" using Q' by (simp add: h2s)
        from w Qh have wq': "wf_queue h q' Q'" unfolding wf_def by blast
        have on: "other \<notin> m_views Q'"
        proof
          assume "other \<in> m_views Q'"
          from wf_queue_member[OF wq' this W] mq False show False by simp
        qed
        have "wf_queue h2 q' Q' = wf_queue h q' Q'"
        proof (rule wf_queue_cong, rule ballI)
          fix u assume "u \<in> m_views Q'"
          then have "u \<noteq> v" "u \<noteq> other" using vm[OF Qh] on by auto
          then show "views h2 u = views h u" by (simp add: h2s h1s)
        qed
        then show ?thesis using wq' by simp
      qed
      show "q' < next_queue h2"
      proof (cases "q' = q")
        case True
        then show ?thesis using w Q unfolding wf_def by (auto simp: h2s)
      next
        case False
        then have "queues h q' = Some Q'" using Q' by (simp add: h2s)
        then show ?thesis using w unfolding wf_def by (auto simp: h2s)
      qed
    next
      fix u U q' assume a: "views h2 u = Some U \<and> m_queue U = Some q'"
      show "q' < next_queue h2"
      proof (cases "u = v")
        case True
        then have "U = V" using a by (simp add: h2s h1s)
        then have "m_queue W = Some q'" using a by (simp add: Vs)
        then show ?thesis using w W unfolding wf_def by (auto simp: h2s)
      next
        case False
        then have "u \<noteq> other" using a by (auto simp: h2s h1s)
        then have "views h u = Some U" using a False by (simp add: h2s h1s)
        then show ?thesis using w a unfolding wf_def by (auto simp: h2s)
      qed
    next
      fix u U q' Q' assume a: "views h2 u = Some U \<and> m_queue U = Some q'"
        and Q': "queues h2 q' = Some Q'"
      show "u \<in> m_views Q'"
      proof (cases "u = v")
        case True
        then have "U = V" using a by (simp add: h2s h1s)
        then have "q' = q" using a mq by (simp add: Vs)
        then have "Q' = Q2" using Q' by (simp add: h2s)
        then show ?thesis using True by (simp add: Q2s)
      next
        case False
        then have uo: "u \<noteq> other" using a by (auto simp: h2s h1s)
        then have Uh: "views h u = Some U" using a False by (simp add: h2s h1s)
        show ?thesis
        proof (cases "q' = q")
          case True
          then have "u \<in> m_views Q" using w Uh a Q unfolding wf_def by blast
          moreover have "Q' = Q2" using True Q' by (simp add: h2s)
          ultimately show ?thesis using uo by (simp add: Q2s)
        next
          case f: False
          then have "queues h q' = Some Q'" using Q' by (simp add: h2s)
          then show ?thesis using w Uh a unfolding wf_def by blast
        qed
      qed
    qed
    moreover have "covered v h2 = covered other h"
      using W mq Q by (simp add: covered_def lock_def h2s h1s Vs Q2s)
    moreover have "covered other h2 = []"
      by (simp add: covered_def h2s h1s lock_def)
    moreover have "\<forall>u. u \<noteq> v \<and> u \<noteq> other \<longrightarrow> covered u h2 = covered u h"
    proof (intro allI impI)
      fix u assume n: "u \<noteq> v \<and> u \<noteq> other"
      then have vs: "views h2 u = views h u" by (simp add: h2s h1s)
      show "covered u h2 = covered u h"
      proof (cases "views h u")
        case None
        then show ?thesis using vs by (simp add: covered_def)
      next
        case (Some U)
        show ?thesis
        proof (cases "m_queue U = Some q")
          case True
          then show ?thesis using Some vs Q by (simp add: covered_def lock_def h2s Q2s)
        next
          case False
          then show ?thesis using Some vs
            by (cases "m_queue U") (simp_all add: covered_def lock_def h2s)
        qed
      qed
    qed
    moreover have "\<forall>q' Q'. m_queue W = Some q' \<and> queues h q' = Some Q' \<longrightarrow>
                 queues h2 q' = Some (Q'\<lparr>m_views := insert v (m_views Q') - {other}\<rparr>)"
      using mq Q by (auto simp: h2s Q2_def)
    ultimately show ?thesis using r by blast
  qed
qed

lemma covered_same_order:
  assumes "queue_of u h = queue_of v h"
  shows "(\<exists>ys. covered u h = ys @ covered v h) \<or> (\<exists>ys. covered v h = ys @ covered u h)"
proof (cases "covered u h = [] \<or> covered v h = []")
  case True
  then show ?thesis by auto
next
  case False
  then have nu: "covered u h \<noteq> []" and nv: "covered v h \<noteq> []" by simp_all
  from covered_nonempty[OF nu] obtain U q Q where
    U: "views h u = Some U" "m_queue U = Some q" "queues h q = Some Q" by blast
  from covered_nonempty[OF nv] obtain V q' Q' where
    V: "views h v = Some V" "m_queue V = Some q'" "queues h q' = Some Q'" by blast
  from assms U V have "q' = q" by (simp add: queue_of_def)
  with U V have Q': "Q' = Q" by simp
  have cu: "covered u h = drop (m_idx U) (m_impl Q)" by (rule covered_eq[OF U])
  have cv: "covered v h = drop (m_idx V) (m_impl Q)" using covered_eq[OF V] Q' by simp
  show ?thesis
  proof (cases "m_idx U \<le> m_idx V")
    case True
    have "drop (m_idx U) (m_impl Q)
            = take (m_idx V - m_idx U) (drop (m_idx U) (m_impl Q))
              @ drop (m_idx V - m_idx U) (drop (m_idx U) (m_impl Q))"
      by (simp only: append_take_drop_id)
    also have "drop (m_idx V - m_idx U) (drop (m_idx U) (m_impl Q)) = drop (m_idx V) (m_impl Q)"
      using True by simp
    finally show ?thesis unfolding cu cv by blast
  next
    case False
    then have le: "m_idx V \<le> m_idx U" by simp
    have "drop (m_idx V) (m_impl Q)
            = take (m_idx U - m_idx V) (drop (m_idx V) (m_impl Q))
              @ drop (m_idx U - m_idx V) (drop (m_idx V) (m_impl Q))"
      by (simp only: append_take_drop_id)
    also have "drop (m_idx U - m_idx V) (drop (m_idx V) (m_impl Q)) = drop (m_idx U) (m_impl Q)"
      using le by simp
    finally show ?thesis unfolding cu cv by blast
  qed
qed

subsection \<open>Releasing a view\<close>

text \<open>
  The body of the loop of \<open>unregisterView\<close> is what \<open>pop\<close> does to the store, so on a
  consistent store the loop runs to the end of the range of the view, and the destructor
  and \<open>clear\<close> keep the store consistent and every other view's range as it was.
\<close>

lemma decreaseReferenceCount_removes_front_only:
  assumes "decreaseReferenceCount q idx h = Inr h'" and "queues h q = Some Q"
  shows "\<exists>Q'. queues h' q = Some Q' \<and> m_views Q' = m_views Q
            \<and> (if dec_size_t (m_referenceCounter Q ! idx) = 0
                then m_impl Q' = tl (m_impl Q) else m_impl Q' = m_impl Q)"
  using assms
  by (auto simp: decreaseReferenceCount_def Let_def split: if_splits)

lemma View_pop_step:
  assumes V: "views h v = Some V" and mq: "m_queue V = Some q" and Q: "queues h q = Some Q"
    and i: "m_idx V < length (m_impl Q)"
  shows "decreaseReferenceCount q (m_idx V)
             (h\<lparr>views := (views h)(v \<mapsto> V\<lparr>m_idx := m_idx V + 1\<rparr>)\<rparr>) = Inr h'
         \<longleftrightarrow> View_pop v h = Inr (m_impl Q ! m_idx V, h')"
  using assms
  by (auto simp: View_pop_def lock_def begin_of_def end_of_def split: sum.splits)

lemma pop_queue_of:
  assumes w: "wf h" and ne: "covered v h \<noteq> []" and p: "View_pop v h = Inr (x, h')"
  shows "queue_of u h' = queue_of u h"
proof -
  from covered_nonempty[OF ne] obtain V q Q where
    V: "views h v = Some V" and mq: "m_queue V = Some q" and Q: "queues h q = Some Q"
    and i: "m_idx V < length (m_impl Q)" by blast
  show ?thesis
  proof (cases "m_referenceCounter Q ! m_idx V = 1")
    case True
    from View_pop_evict(1)[OF w V mq Q i True] p show ?thesis
      by (auto simp: queue_of_def split: option.splits)
  next
    case False
    from View_pop_keep[OF w V mq Q i False] p V mq show ?thesis
      by (auto simp: queue_of_def split: option.splits)
  qed
qed

lemma unregisterView_loop_wf:
  assumes "wf h" and "attached v h" and "queue_of v h = Some q"
  shows "\<exists>h'. unregisterView_loop q v h = Inr h' \<and> wf h' \<and> covered v h' = []
            \<and> (\<forall>u. u \<noteq> v \<longrightarrow> covered u h' = covered u h)
            \<and> (\<forall>u. attached u h' = attached u h)
            \<and> (\<forall>u. queue_of u h' = queue_of u h)"
  using assms
proof (induction "length (covered v h)" arbitrary: h)
  case 0
  from attachedD[OF "0.prems"(2)] "0.prems"(3) obtain V Q where
    V: "views h v = Some V" and mq: "m_queue V = Some q" and Q: "queues h q = Some Q"
    by (auto simp: queue_of_def)
  from wf_registered[OF "0.prems"(1) V mq Q] have "v \<in> m_views Q" "wf_queue h q Q" by simp_all
  from wf_queue_member[OF this(2,1) V] have le: "m_idx V \<le> length (m_impl Q)" by simp
  have "covered v h = drop (m_idx V) (m_impl Q)" by (rule covered_eq[OF V mq Q])
  with "0.hyps" le have e: "m_idx V = length (m_impl Q)" by simp
  have "unregisterView_loop q v h = Inr h"
    using V Q e by (subst unregisterView_loop.simps) simp
  then show ?case using "0.prems"(1) "0.hyps" by simp
next
  case (Suc n)
  from attachedD[OF Suc.prems(2)] Suc.prems(3) obtain V Q where
    V: "views h v = Some V" and mq: "m_queue V = Some q" and Q: "queues h q = Some Q"
    by (auto simp: queue_of_def)
  have ne: "covered v h \<noteq> []" using Suc.hyps(2) by auto
  have c: "covered v h = drop (m_idx V) (m_impl Q)" by (rule covered_eq[OF V mq Q])
  with ne have i: "m_idx V < length (m_impl Q)" by simp
  from pop_covered[OF Suc.prems(1) ne] obtain h1 where
    pop: "View_pop v h = Inr (hd (covered v h), h1)" and w1: "wf h1"
    and cv: "covered v h1 = tl (covered v h)"
    and co: "\<forall>u. u \<noteq> v \<longrightarrow> covered u h1 = covered u h"
    and at: "\<forall>u. attached u h1 = attached u h" by blast
  have qo: "\<And>u. queue_of u h1 = queue_of u h" by (rule pop_queue_of[OF Suc.prems(1) ne pop])
  have "hd (covered v h) = m_impl Q ! m_idx V" using c i by (simp add: hd_drop_conv_nth)
  with pop have d: "decreaseReferenceCount q (m_idx V)
             (h\<lparr>views := (views h)(v \<mapsto> V\<lparr>m_idx := m_idx V + 1\<rparr>)\<rparr>) = Inr h1"
    using View_pop_step[OF V mq Q i] by simp
  have step: "unregisterView_loop q v h = unregisterView_loop q v h1"
    using V Q i d by (subst unregisterView_loop.simps) simp
  have n: "n = length (covered v h1)" using cv Suc.hyps(2) by simp
  from Suc.hyps(1)[OF n w1] at qo Suc.prems(2,3) obtain h2 where
    "unregisterView_loop q v h1 = Inr h2" "wf h2" "covered v h2 = []"
    "\<forall>u. u \<noteq> v \<longrightarrow> covered u h2 = covered u h1"
    "\<forall>u. attached u h2 = attached u h1" "\<forall>u. queue_of u h2 = queue_of u h1" by auto
  then show ?case using step co at qo by auto
qed

lemma wf_remove_view:
  assumes w: "wf h" and V: "views h v = Some V" and mq: "m_queue V = Some q"
    and Q: "queues h q = Some Q" and e: "m_idx V = length (m_impl Q)"
  shows "wf (h\<lparr>queues := (queues h)(q \<mapsto> Q\<lparr>m_views := m_views Q - {v}\<rparr>),
               views := (views h)(v := None)\<rparr>)"
proof -
  define Q1 where "Q1 = Q\<lparr>m_views := m_views Q - {v}\<rparr>"
  define h1 where "h1 = h\<lparr>queues := (queues h)(q \<mapsto> Q1), views := (views h)(v := None)\<rparr>"
  have Q1s: "m_impl Q1 = m_impl Q" "m_views Q1 = m_views Q - {v}"
    "m_referenceCounter Q1 = m_referenceCounter Q"
    by (simp_all add: Q1_def)
  have h1s: "views h1 = (views h)(v := None)"
    "queues h1 = (queues h)(q \<mapsto> Q1)" "next_queue h1 = next_queue h"
    by (simp_all add: h1_def)
  from wf_registered[OF w V mq Q] have vin: "v \<in> m_views Q" and wq: "wf_queue h q Q"
    by simp_all
  have cnt: "\<And>j. j < length (m_impl Q) \<Longrightarrow>
      m_referenceCounter Q ! j = card {w \<in> m_views Q. idx_of h w \<le> j} \<and> 0 < m_referenceCounter Q ! j"
    using wq unfolding wf_queue_def by blast
  have idx1: "\<And>u. u \<noteq> v \<Longrightarrow> idx_of h1 u = idx_of h u" by (simp add: idx_of_def h1s)
  have wq1: "wf_queue h1 q Q1"
    unfolding wf_queue_def
  proof (intro conjI allI impI ballI)
    show "finite (m_views Q1)" using wq by (simp add: Q1s wf_queue_def)
    show "length (m_referenceCounter Q1) = length (m_impl Q1)"
      using wf_queue_len[OF wq] by (simp add: Q1s)
  next
    fix u U assume "u \<in> m_views Q1" and "views h1 u = Some U"
    then have "u \<in> m_views Q" "views h u = Some U" by (auto simp: Q1s h1s split: if_splits)
    from wf_queue_member[OF wq this]
    show "m_queue U = Some q" and "m_idx U \<le> length (m_impl Q1)" by (simp_all add: Q1s)
  next
    fix j assume "j < length (m_impl Q1)"
    then have j: "j < length (m_impl Q)" by (simp add: Q1s)
    have iv: "idx_of h v = length (m_impl Q)" using V e by (simp add: idx_of_def)
    have "{w \<in> m_views Q - {v}. idx_of h1 w \<le> j} = {w \<in> m_views Q. idx_of h w \<le> j}"
    proof (rule Collect_cong)
      fix u
      show "(u \<in> m_views Q - {v} \<and> idx_of h1 u \<le> j) = (u \<in> m_views Q \<and> idx_of h u \<le> j)"
        using iv j idx1[of u] by (cases "u = v") auto
    qed
    then show "m_referenceCounter Q1 ! j = card {w \<in> m_views Q1. idx_of h1 w \<le> j}"
      using cnt[OF j] by (simp add: Q1s)
    show "0 < m_referenceCounter Q1 ! j" using cnt[OF j] by (simp add: Q1s)
  qed
  have other: "\<And>q' Q'. q' \<noteq> q \<Longrightarrow> queues h q' = Some Q' \<Longrightarrow> wf_queue h1 q' Q'"
  proof -
    fix q' Q' assume ne: "q' \<noteq> q" and Q': "queues h q' = Some Q'"
    have wq0: "wf_queue h q' Q'" using w Q' unfolding wf_def by blast
    have "v \<notin> m_views Q'"
    proof
      assume "v \<in> m_views Q'"
      from wf_queue_member[OF wq0 this V] mq ne show False by simp
    qed
    then have "\<forall>u \<in> m_views Q'. views h1 u = views h u" by (auto simp: h1s)
    then show "wf_queue h1 q' Q'" using wq0 wf_queue_cong by blast
  qed
  have "wf h1"
    unfolding wf_def
  proof (intro conjI allI impI)
    fix q' Q' assume a: "queues h1 q' = Some Q'"
    show "wf_queue h1 q' Q'"
    proof (cases "q' = q")
      case True
      with a wq1 show ?thesis by (simp add: h1s)
    next
      case False
      with a have "queues h q' = Some Q'" by (simp add: h1s)
      with other False show ?thesis by blast
    qed
    show "q' < next_queue h1"
      using a w Q unfolding wf_def by (cases "q' = q") (auto simp: h1s)
  next
    fix u U q' assume a: "views h1 u = Some U \<and> m_queue U = Some q'"
    then have uv: "u \<noteq> v" and U0: "views h u = Some U" by (auto simp: h1s split: if_splits)
    show "q' < next_queue h1" using a U0 w unfolding wf_def by (auto simp: h1s)
    fix Q' assume b: "queues h1 q' = Some Q'"
    show "u \<in> m_views Q'"
    proof (cases "q' = q")
      case True
      with U0 a Q w have uin: "u \<in> m_views Q" unfolding wf_def by blast
      from True b have "Q' = Q1" by (simp add: h1s)
      then show ?thesis using uin uv by (simp add: Q1s)
    next
      case False
      with b have "queues h q' = Some Q'" by (simp add: h1s)
      with U0 a w show ?thesis unfolding wf_def by blast
    qed
  qed
  then show ?thesis by (simp add: h1_def Q1_def)
qed

lemma released:
  assumes w: "wf h" and at: "attached v h" and qo: "queue_of v h = Some q"
  obtains h1 V1 Q1 where "unregisterView_loop q v h = Inr h1" and "wf h1"
    and "views h1 v = Some V1" and "m_queue V1 = Some q" and "queues h1 q = Some Q1"
    and "m_idx V1 = length (m_impl Q1)" and "v \<in> m_views Q1"
    and "\<forall>u. u \<noteq> v \<longrightarrow> covered u h1 = covered u h"
proof -
  from unregisterView_loop_wf[OF w at qo] obtain h1 where
    l: "unregisterView_loop q v h = Inr h1" and w1: "wf h1" and c: "covered v h1 = []"
    and co: "\<forall>u. u \<noteq> v \<longrightarrow> covered u h1 = covered u h"
    and at1: "\<forall>u. attached u h1 = attached u h"
    and qo1: "\<forall>u. queue_of u h1 = queue_of u h" by blast
  from at at1 have "attached v h1" by simp
  from attachedD[OF this] obtain V1 q1 Q1 where
    V1: "views h1 v = Some V1" and mq0: "m_queue V1 = Some q1" and Q0: "queues h1 q1 = Some Q1"
    by blast
  have "queue_of v h1 = Some q" using qo qo1 by simp
  then have "q1 = q" using V1 mq0 by (simp add: queue_of_def)
  with mq0 Q0 have mq1: "m_queue V1 = Some q" and Q1: "queues h1 q = Some Q1" by simp_all
  from wf_registered[OF w1 V1 mq1 Q1] have vin: "v \<in> m_views Q1" and wq: "wf_queue h1 q Q1"
    by simp_all
  from wf_queue_member[OF wq vin V1] have "m_idx V1 \<le> length (m_impl Q1)" by simp
  moreover have "drop (m_idx V1) (m_impl Q1) = []" using c covered_eq[OF V1 mq1 Q1] by simp
  ultimately have e: "m_idx V1 = length (m_impl Q1)" by simp
  from l w1 V1 mq1 Q1 e vin co show ?thesis by (rule that)
qed

lemma View_dtor_wf:
  assumes w: "wf h" and at: "attached v h"
  shows "\<exists>h'. View_dtor v h = Inr h' \<and> wf h' \<and> views h' v = None
            \<and> (\<forall>u. u \<noteq> v \<longrightarrow> covered u h' = covered u h)"
proof -
  from attachedD[OF at] obtain V q Q where
    V: "views h v = Some V" and mq: "m_queue V = Some q" and Q: "queues h q = Some Q" by blast
  then have qo: "queue_of v h = Some q" by (simp add: queue_of_def)
  from wf_registered[OF w V mq Q] have vin: "v \<in> m_views Q" by simp
  from released[OF w at qo] obtain h1 V1 Q1 where
    l: "unregisterView_loop q v h = Inr h1" and w1: "wf h1"
    and V1: "views h1 v = Some V1" and mq1: "m_queue V1 = Some q" and Q1: "queues h1 q = Some Q1"
    and e: "m_idx V1 = length (m_impl Q1)"
    and co: "\<forall>u. u \<noteq> v \<longrightarrow> covered u h1 = covered u h" by metis
  define h' where "h' = h1\<lparr>queues := (queues h1)(q \<mapsto> Q1\<lparr>m_views := m_views Q1 - {v}\<rparr>),
               views := (views h1)(v := None)\<rparr>"
  have d: "View_dtor v h = Inr h'"
    using V mq Q vin l Q1
    by (simp add: View_dtor_def unregister_if_locked_def lock_def unregisterView_def
          on_queue_def h'_def)
  have w': "wf h'" unfolding h'_def by (rule wf_remove_view[OF w1 V1 mq1 Q1 e])
  have n: "views h' v = None" by (simp add: h'_def)
  have c: "\<forall>u. u \<noteq> v \<longrightarrow> covered u h' = covered u h1"
    using Q1 by (auto simp: covered_def lock_def h'_def split: option.splits)
  from d w' n c co show ?thesis by auto
qed

lemma View_clear_wf:
  assumes w: "wf h" and at: "attached v h"
  shows "\<exists>h'. View_clear v h = Inr h' \<and> wf h' \<and> covered v h' = []
            \<and> (\<forall>u. u \<noteq> v \<longrightarrow> covered u h' = covered u h)"
proof -
  from attachedD[OF at] obtain V q Q where
    V: "views h v = Some V" and mq: "m_queue V = Some q" and Q: "queues h q = Some Q" by blast
  then have qo: "queue_of v h = Some q" by (simp add: queue_of_def)
  from wf_registered[OF w V mq Q] have vin: "v \<in> m_views Q" by simp
  from released[OF w at qo] obtain h1 V1 Q1 where
    l: "unregisterView_loop q v h = Inr h1" and w1: "wf h1"
    and V1: "views h1 v = Some V1" and mq1: "m_queue V1 = Some q" and Q1: "queues h1 q = Some Q1"
    and e: "m_idx V1 = length (m_impl Q1)" and vin1: "v \<in> m_views Q1"
    and co: "\<forall>u. u \<noteq> v \<longrightarrow> covered u h1 = covered u h" by metis
  have reinsert: "insert v (m_views Q1 - {v}) = m_views Q1" using vin1 by auto
  have "h1\<lparr>queues := (queues h1)(q \<mapsto> Q1)\<rparr> = h1" using Q1 by (simp add: fun_upd_idem)
  then have d: "View_clear v h = Inr h1"
    using V mq Q vin l Q1 reinsert
    by (simp add: View_clear_def lock_def unregisterView_def on_queue_def registerView_def)
  have c: "covered v h1 = []" using e by (simp add: covered_eq[OF V1 mq1 Q1])
  from d w1 c co show ?thesis by auto
qed

subsection \<open>Pulling inputs on a consistent store\<close>

lemma allInputsReady_wf:
  assumes "wf h" and "\<forall>p \<in> set ps. attached p h"
  shows "allInputsReady ps h = Inr (\<forall>p \<in> set ps. covered p h \<noteq> [])"
  using assms
  by (induction ps) (auto simp: View_size_covered)

lemma getInputs_wf:
  assumes "wf h" and "distinct ps" and "\<forall>p \<in> set ps. covered p h \<noteq> []"
  shows "\<exists>h'. getInputs ps h = Inr (map (\<lambda>p. hd (covered p h)) ps, h') \<and> wf h'
            \<and> (\<forall>p \<in> set ps. covered p h' = tl (covered p h))
            \<and> (\<forall>u. u \<notin> set ps \<longrightarrow> covered u h' = covered u h)
            \<and> (\<forall>u. attached u h' = attached u h)"
  using assms
proof (induction ps arbitrary: h)
  case Nil
  then show ?case by simp
next
  case (Cons p ps)
  from Cons.prems have ne: "covered p h \<noteq> []" by simp
  from pop_covered[OF Cons.prems(1) ne] obtain h1 where
    pop: "View_pop p h = Inr (hd (covered p h), h1)" and w1: "wf h1"
    and cp: "covered p h1 = tl (covered p h)"
    and co: "\<forall>u. u \<noteq> p \<longrightarrow> covered u h1 = covered u h"
    and at: "\<forall>u. attached u h1 = attached u h" by blast
  from Cons.prems have d: "distinct ps" and pn: "p \<notin> set ps" by simp_all
  have same: "\<forall>u \<in> set ps. covered u h1 = covered u h" using co pn by auto
  then have ne1: "\<forall>u \<in> set ps. covered u h1 \<noteq> []" using Cons.prems(3) by simp
  from Cons.IH[OF w1 d ne1] obtain h2 where
    g: "getInputs ps h1 = Inr (map (\<lambda>p. hd (covered p h1)) ps, h2)" and w2: "wf h2"
    and c2: "\<forall>u \<in> set ps. covered u h2 = tl (covered u h1)"
    and o2: "\<forall>u. u \<notin> set ps \<longrightarrow> covered u h2 = covered u h1"
    and a2: "\<forall>u. attached u h2 = attached u h1" by blast
  have m: "map (\<lambda>p. hd (covered p h1)) ps = map (\<lambda>p. hd (covered p h)) ps"
    using same by simp
  have "getInputs (p # ps) h = Inr (map (\<lambda>p. hd (covered p h)) (p # ps), h2)"
    using pop g m by simp
  moreover have "\<forall>u \<in> set (p # ps). covered u h2 = tl (covered u h)"
    using c2 same o2 pn cp by auto
  moreover have "\<forall>u. u \<notin> set (p # ps) \<longrightarrow> covered u h2 = covered u h"
    using o2 co by auto
  moreover have "\<forall>u. attached u h2 = attached u h" using a2 at by simp
  ultimately show ?case using w2 by blast
qed

lemma bus_pullInput_loop_wf:
  assumes "wf h" and "distinct (m_inputPipes c)"
    and "\<forall>p \<in> set (m_inputPipes c). attached p h"
    and "i \<le> length (m_inputPipes c)"
  shows "\<exists>h'. bus_pullInput_loop i c h =
            Inr (if takeWhile (\<lambda>p. covered p h \<noteq> []) (drop i (m_inputPipes c)) = drop i (m_inputPipes c)
                 then Some (m_inputs c @ map (\<lambda>p. hd (covered p h))
                                (takeWhile (\<lambda>p. covered p h \<noteq> []) (drop i (m_inputPipes c))))
                 else None,
                 c\<lparr>m_inputs :=
                    if takeWhile (\<lambda>p. covered p h \<noteq> []) (drop i (m_inputPipes c)) = drop i (m_inputPipes c)
                    then []
                    else m_inputs c @ map (\<lambda>p. hd (covered p h))
                                (takeWhile (\<lambda>p. covered p h \<noteq> []) (drop i (m_inputPipes c)))\<rparr>,
                 h')
          \<and> wf h'
          \<and> (\<forall>p \<in> set (takeWhile (\<lambda>p. covered p h \<noteq> []) (drop i (m_inputPipes c))).
                 covered p h' = tl (covered p h))
          \<and> (\<forall>u. u \<notin> set (takeWhile (\<lambda>p. covered p h \<noteq> []) (drop i (m_inputPipes c)))
                 \<longrightarrow> covered u h' = covered u h)
          \<and> (\<forall>u. attached u h' = attached u h)"
  using assms
proof (induction "length (m_inputPipes c) - i" arbitrary: i c h)
  case 0
  then have "i = length (m_inputPipes c)" by simp
  then show ?case using "0.prems"(1) by (simp add: bus_pullInput_loop.simps)
next
  case (Suc n)
  let ?ps = "m_inputPipes c"
  from Suc.hyps(2) have i: "i < length ?ps" by simp
  let ?p = "?ps ! i"
  have dr: "drop i ?ps = ?p # drop (Suc i) ?ps" using i by (simp add: Cons_nth_drop_Suc)
  have pin: "?p \<in> set ?ps" using i by simp
  have att: "attached ?p h" using Suc.prems(3) pin by blast
  have sz: "View_size ?p h = Inr (length (covered ?p h))"
    using Suc.prems(1) att by (rule View_size_covered)
  show ?case
  proof (cases "covered ?p h = []")
    case True
    have "bus_pullInput_loop i c h = Inr (None, c, h)"
      using i sz True by (subst bus_pullInput_loop.simps) simp
    then show ?thesis using True dr Suc.prems(1) by simp
  next
    case False
    from pop_covered[OF Suc.prems(1) False] obtain h1 where
      pop: "View_pop ?p h = Inr (hd (covered ?p h), h1)" and w1: "wf h1"
      and cp: "covered ?p h1 = tl (covered ?p h)"
      and co: "\<forall>u. u \<noteq> ?p \<longrightarrow> covered u h1 = covered u h"
      and at: "\<forall>u. attached u h1 = attached u h" by blast
    let ?c1 = "c\<lparr>m_inputs := m_inputs c @ [hd (covered ?p h)]\<rparr>"
    have step: "bus_pullInput_loop i c h = bus_pullInput_loop (Suc i) ?c1 h1"
      using i sz False pop by (subst bus_pullInput_loop.simps) simp
    have notin: "?p \<notin> set (drop (Suc i) ?ps)"
      using Suc.prems(2) i dr by (metis distinct.simps(2) distinct_drop)
    have same: "\<forall>u \<in> set (drop (Suc i) ?ps). covered u h1 = covered u h"
    proof
      fix u assume "u \<in> set (drop (Suc i) ?ps)"
      with notin have "u \<noteq> ?p" by blast
      with co show "covered u h1 = covered u h" by blast
    qed
    have tw: "takeWhile (\<lambda>p. covered p h1 \<noteq> []) (drop (Suc i) ?ps)
              = takeWhile (\<lambda>p. covered p h \<noteq> []) (drop (Suc i) ?ps)"
      using same by (intro takeWhile_cong) auto
    let ?pre1 = "takeWhile (\<lambda>p. covered p h \<noteq> []) (drop (Suc i) ?ps)"
    have sub: "set ?pre1 \<subseteq> set (drop (Suc i) ?ps)" by (auto dest: set_takeWhileD)
    have mp: "map (\<lambda>p. hd (covered p h1)) ?pre1 = map (\<lambda>p. hd (covered p h)) ?pre1"
      using same sub by auto
    have pre: "takeWhile (\<lambda>p. covered p h \<noteq> []) (drop i ?ps) = ?p # ?pre1"
      using dr False by simp
    have n: "n = length (m_inputPipes ?c1) - Suc i" using Suc.hyps(2) by simp
    have p1: "distinct (m_inputPipes ?c1)" "\<forall>p \<in> set (m_inputPipes ?c1). attached p h1"
      "Suc i \<le> length (m_inputPipes ?c1)"
      using Suc.prems(2,3) at i by simp_all
    have pe: "m_inputPipes ?c1 = ?ps" by simp
    note ih = Suc.hyps(1)[OF n w1 p1, unfolded pe tw mp]
    then obtain h2 where
      r: "bus_pullInput_loop (Suc i) ?c1 h1 =
            Inr (if ?pre1 = drop (Suc i) ?ps
                 then Some (m_inputs ?c1 @ map (\<lambda>p. hd (covered p h)) ?pre1)
                 else None,
                 ?c1\<lparr>m_inputs := if ?pre1 = drop (Suc i) ?ps then []
                                  else m_inputs ?c1 @ map (\<lambda>p. hd (covered p h)) ?pre1\<rparr>,
                 h2)"
      and w2: "wf h2"
      and c2: "\<forall>p \<in> set ?pre1. covered p h2 = tl (covered p h1)"
      and o2: "\<forall>u. u \<notin> set ?pre1 \<longrightarrow> covered u h2 = covered u h1"
      and a2: "\<forall>u. attached u h2 = attached u h1"
      by blast
    have pn: "?p \<notin> set ?pre1" using notin sub by blast
    have A: "bus_pullInput_loop i c h =
            Inr (if ?p # ?pre1 = drop i ?ps
                 then Some (m_inputs c @ map (\<lambda>p. hd (covered p h)) (?p # ?pre1))
                 else None,
                 c\<lparr>m_inputs := if ?p # ?pre1 = drop i ?ps then []
                                  else m_inputs c @ map (\<lambda>p. hd (covered p h)) (?p # ?pre1)\<rparr>,
                 h2)"
      unfolding step r using dr by simp
    have B: "\<forall>u \<in> set (?p # ?pre1). covered u h2 = tl (covered u h)"
      using c2 o2 pn cp same sub by auto
    have C: "\<forall>u. u \<notin> set (?p # ?pre1) \<longrightarrow> covered u h2 = covered u h"
      using o2 co by auto
    have D: "\<forall>u. attached u h2 = attached u h" using a2 at by simp
    show ?thesis unfolding pre using A B C D w2 by blast
  qed
qed

lemma pullInput_wf:
  assumes "wf h" and "attached v h"
  shows "covered v h = [] \<Longrightarrow> pullInput v h = Inr (None, h)"
    and "covered v h \<noteq> [] \<Longrightarrow>
           \<exists>h'. pullInput v h = Inr (Some (hd (covered v h)), h') \<and> wf h'
               \<and> covered v h' = tl (covered v h)
               \<and> (\<forall>u. u \<noteq> v \<longrightarrow> covered u h' = covered u h)"
proof -
  note sz = View_size_covered[OF assms]
  show "covered v h = [] \<Longrightarrow> pullInput v h = Inr (None, h)"
    using sz by (simp add: pullInput_def)
  assume ne: "covered v h \<noteq> []"
  from pop_covered[OF assms(1) ne] obtain h' where
    "View_pop v h = Inr (hd (covered v h), h')" "wf h'" "covered v h' = tl (covered v h)"
    "\<forall>u. u \<noteq> v \<longrightarrow> covered u h' = covered u h" by blast
  then show "\<exists>h'. pullInput v h = Inr (Some (hd (covered v h)), h') \<and> wf h'
               \<and> covered v h' = tl (covered v h)
               \<and> (\<forall>u. u \<noteq> v \<longrightarrow> covered u h' = covered u h)"
    using sz ne by (auto simp: pullInput_def)
qed

subsection \<open>Wiring a consumer\<close>

text \<open>
  \<open>setInputPipe\<close> on a consumer whose input was never set, with a view of an empty queue
  as its argument: the member takes the place of the argument, and the address of the
  argument stays in the set of registered views after the argument is gone. The store is
  consistent all the same, which is why the invariant allows such addresses.
\<close>

lemma setInputPipe_eq:
  assumes M: "views h m = Some \<lparr>m_queue = None, m_idx = 0\<rparr>" and T: "views h t = Some T"
    and mq: "m_queue T = Some q" and Q: "queues h q = Some Q" and ne: "m \<noteq> t"
  shows "setInputPipe m t h
           = Inr (h\<lparr>views := (views h)(t := None, m \<mapsto> \<lparr>m_queue = Some q, m_idx = m_idx T\<rparr>),
                   queues := (queues h)(q \<mapsto> Q\<lparr>m_views := insert m (m_views Q)\<rparr>)\<rparr>)"
proof -
  have u: "unregister_if_locked m h = Inr h"
    using M by (simp add: unregister_if_locked_def lock_def)
  let ?h2 = "h\<lparr>views := (views h)(t \<mapsto> T\<lparr>m_queue := None\<rparr>,
                                     m \<mapsto> \<lparr>m_queue = m_queue T, m_idx = m_idx T\<rparr>)\<rparr>"
  let ?h3 = "?h2\<lparr>queues := (queues ?h2)(q \<mapsto> registerView m Q)\<rparr>"
  have r: "register_if_locked m ?h2 = Inr ?h3"
    using mq Q by (simp add: register_if_locked_def lock_def on_queue_def)
  have ma: "View_move_assign m t h = Inr ?h3"
    using u T r by (simp add: View_move_assign_def)
  have d: "View_dtor t ?h3 = Inr (?h3\<lparr>views := (views ?h3)(t := None)\<rparr>)"
    using ne by (simp add: View_dtor_def unregister_if_locked_def lock_def)
  have e: "?h3\<lparr>views := (views ?h3)(t := None)\<rparr>
        = h\<lparr>views := (views h)(t := None, m \<mapsto> \<lparr>m_queue = Some q, m_idx = m_idx T\<rparr>),
                   queues := (queues h)(q \<mapsto> Q\<lparr>m_views := insert m (m_views Q)\<rparr>)\<rparr>"
    using ne mq by (simp add: registerView_def fun_upd_twist)
  show ?thesis
    unfolding setInputPipe_def ma using d e by simp
qed

lemma wf_setInputPipe:
  assumes w: "wf h" and M: "views h m = Some \<lparr>m_queue = None, m_idx = 0\<rparr>"
    and T: "views h t = Some T" and mq: "m_queue T = Some q" and Q: "queues h q = Some Q"
    and empty: "m_impl Q = []" and ne: "m \<noteq> t"
    and unreg: "\<forall>q' Q'. queues h q' = Some Q' \<longrightarrow> m \<notin> m_views Q'"
  shows "wf (h\<lparr>views := (views h)(t := None, m \<mapsto> \<lparr>m_queue = Some q, m_idx = m_idx T\<rparr>),
                   queues := (queues h)(q \<mapsto> Q\<lparr>m_views := insert m (m_views Q)\<rparr>)\<rparr>)"
proof -
  define Q1 where "Q1 = Q\<lparr>m_views := insert m (m_views Q)\<rparr>"
  define h1 where "h1 = h\<lparr>views := (views h)(t := None,
                                   m \<mapsto> \<lparr>m_queue = Some q, m_idx = m_idx T\<rparr>),
                   queues := (queues h)(q \<mapsto> Q1)\<rparr>"
  have Q1s: "m_impl Q1 = []" "m_views Q1 = insert m (m_views Q)"
    "m_referenceCounter Q1 = m_referenceCounter Q"
    using empty by (simp_all add: Q1_def)
  have h1s: "views h1 = (views h)(t := None, m \<mapsto> \<lparr>m_queue = Some q, m_idx = m_idx T\<rparr>)"
    "queues h1 = (queues h)(q \<mapsto> Q1)" "next_queue h1 = next_queue h"
    by (simp_all add: h1_def)
  from wf_registered[OF w T mq Q] have tin: "t \<in> m_views Q" and wq: "wf_queue h q Q"
    by simp_all
  from wf_queue_member[OF wq tin T] empty have t0: "m_idx T = 0" by simp
  have qlt: "q < next_queue h" using w Q unfolding wf_def by blast
  have wq1: "wf_queue h1 q Q1"
    unfolding wf_queue_def
  proof (intro conjI allI impI ballI)
    show "finite (m_views Q1)" using wq by (simp add: Q1s wf_queue_def)
    show "length (m_referenceCounter Q1) = length (m_impl Q1)"
      using wf_queue_len[OF wq] empty by (simp add: Q1s)
  next
    fix u U assume u: "u \<in> m_views Q1" and U: "views h1 u = Some U"
    have "m_queue U = Some q \<and> m_idx U \<le> length (m_impl Q1)"
    proof (cases "u = m")
      case True
      then show ?thesis using U t0 by (auto simp: h1s Q1s)
    next
      case False
      with U have ut: "u \<noteq> t" and U0: "views h u = Some U"
        by (auto simp: h1s split: if_splits)
      from u False have "u \<in> m_views Q" by (simp add: Q1s)
      from wf_queue_member[OF wq this U0] empty show ?thesis by (simp add: Q1s)
    qed
    then show "m_queue U = Some q" and "m_idx U \<le> length (m_impl Q1)" by simp_all
  next
    fix i assume "i < length (m_impl Q1)"
    then show "m_referenceCounter Q1 ! i = card {w \<in> m_views Q1. idx_of h1 w \<le> i}"
      and "0 < m_referenceCounter Q1 ! i" by (simp_all add: Q1s)
  qed
  have other: "\<And>q' Q'. q' \<noteq> q \<Longrightarrow> queues h q' = Some Q' \<Longrightarrow> wf_queue h1 q' Q'"
  proof -
    fix q' Q' assume ne': "q' \<noteq> q" and Q': "queues h q' = Some Q'"
    have wq0: "wf_queue h q' Q'" using w Q' unfolding wf_def by blast
    have "t \<notin> m_views Q'"
    proof
      assume "t \<in> m_views Q'"
      from wf_queue_member[OF wq0 this T] mq ne' show False by simp
    qed
    moreover have "m \<notin> m_views Q'" using unreg Q' by blast
    ultimately have "\<forall>u \<in> m_views Q'. views h1 u = views h u" by (auto simp: h1s)
    then show "wf_queue h1 q' Q'" using wq0 wf_queue_cong by blast
  qed
  have "wf h1"
    unfolding wf_def
  proof (intro conjI allI impI)
    fix q' Q' assume a: "queues h1 q' = Some Q'"
    show "wf_queue h1 q' Q'"
    proof (cases "q' = q")
      case True
      with a wq1 show ?thesis by (simp add: h1s)
    next
      case False
      with a have "queues h q' = Some Q'" by (simp add: h1s)
      with other False show ?thesis by blast
    qed
    show "q' < next_queue h1"
      using a w Q unfolding wf_def by (cases "q' = q") (auto simp: h1s)
  next
    fix u U q' assume a: "views h1 u = Some U \<and> m_queue U = Some q'"
    show "q' < next_queue h1"
    proof (cases "u = m")
      case True
      with a qlt show ?thesis by (auto simp: h1s)
    next
      case False
      with a have "views h u = Some U" by (auto simp: h1s split: if_splits)
      with a w show ?thesis unfolding wf_def by (auto simp: h1s)
    qed
    fix Q' assume b: "queues h1 q' = Some Q'"
    show "u \<in> m_views Q'"
    proof (cases "u = m")
      case True
      with a have "q' = q" by (auto simp: h1s)
      with b have "Q' = Q1" by (simp add: h1s)
      then show ?thesis using True by (simp add: Q1s)
    next
      case False
      with a have U0: "views h u = Some U" by (auto simp: h1s split: if_splits)
      show ?thesis
      proof (cases "q' = q")
        case True
        with U0 a Q w have uin: "u \<in> m_views Q" unfolding wf_def by blast
        from True b have "Q' = Q1" by (simp add: h1s)
        then show ?thesis using uin by (simp add: Q1s)
      next
        case False
        with b have "queues h q' = Some Q'" by (simp add: h1s)
        with U0 a w show ?thesis unfolding wf_def by blast
      qed
    qed
  qed
  then show ?thesis by (simp add: h1_def Q1_def)
qed

subsection \<open>The example stores are consistent\<close>

lemma wf_queue_at_front:
  assumes "finite S" and "length cs = length xs"
    and "\<forall>w \<in> S. \<forall>W. views h w = Some W \<longrightarrow> m_queue W = Some q \<and> m_idx W = 0"
    and "\<forall>c \<in> set cs. c = card S" and "xs \<noteq> [] \<longrightarrow> S \<noteq> {}"
  shows "wf_queue h q \<lparr>m_impl = xs, m_referenceCounter = cs, m_views = S\<rparr>"
proof -
  have z: "\<And>w. w \<in> S \<Longrightarrow> idx_of h w = 0"
    using assms(3) by (auto simp: idx_of_def split: option.splits)
  then have s: "\<And>i. {w \<in> S. idx_of h w \<le> i} = S" by auto
  have pos: "xs \<noteq> [] \<Longrightarrow> 0 < card S" using assms(1,5) by (simp add: card_gt_0_iff)
  have c: "\<And>i. i < length xs \<Longrightarrow> cs ! i = card S \<and> 0 < cs ! i"
  proof -
    fix i assume i: "i < length xs"
    then have "cs ! i \<in> set cs" using assms(2) by simp
    then have "cs ! i = card S" using assms(4) by blast
    moreover have "xs \<noteq> []" using i by auto
    ultimately show "cs ! i = card S \<and> 0 < cs ! i" using pos by simp
  qed
  have c': "\<forall>i < length xs. cs ! i = card S \<and> 0 < cs ! i" using c by blast
  have m: "\<forall>w \<in> S. \<forall>W. views h w = Some W \<longrightarrow> m_queue W = Some q \<and> m_idx W \<le> length xs"
    using assms(3) by auto
  show ?thesis
    unfolding wf_queue_def by (simp only: Queue.simps s) (intro conjI assms(1,2) c' m)
qed

lemma wf_pair_heap: "wf pair_heap"
proof -
  have "wf_queue pair_heap 0 \<lparr>m_impl = [123], m_referenceCounter = [2], m_views = {1, 3}\<rparr>"
    by (rule wf_queue_at_front) (simp_all add: pair_heap_def)
  moreover have "wf_queue pair_heap 1 \<lparr>m_impl = [], m_referenceCounter = [], m_views = {2, 4}\<rparr>"
    by (rule wf_queue_at_front) (simp_all add: pair_heap_def)
  ultimately show ?thesis
    unfolding wf_def by (simp add: pair_heap_def)
qed

lemma wf_pair_heap_ready: "wf pair_heap_ready"
proof -
  have "wf_queue pair_heap_ready 0 \<lparr>m_impl = [123], m_referenceCounter = [2], m_views = {1, 3}\<rparr>"
    by (rule wf_queue_at_front) (simp_all add: pair_heap_ready_def)
  moreover have "wf_queue pair_heap_ready 1 \<lparr>m_impl = [5], m_referenceCounter = [2], m_views = {2, 4}\<rparr>"
    by (rule wf_queue_at_front) (simp_all add: pair_heap_ready_def)
  ultimately show ?thesis
    unfolding wf_def by (simp add: pair_heap_ready_def)
qed

lemma wf_bus_heap: "wf (bus_heap xs ys)"
proof -
  have "wf_queue (bus_heap xs ys) 0 \<lparr>m_impl = xs, m_referenceCounter = map (\<lambda>x. 1) xs, m_views = {11}\<rparr>"
    by (rule wf_queue_at_front) (auto simp: bus_heap_def)
  moreover have "wf_queue (bus_heap xs ys) 1 \<lparr>m_impl = ys, m_referenceCounter = map (\<lambda>x. 1) ys, m_views = {12}\<rparr>"
    by (rule wf_queue_at_front) (auto simp: bus_heap_def)
  ultimately show ?thesis
    unfolding wf_def by (simp add: bus_heap_def)
qed

lemma pair_heap_facts:
  "attached 3 pair_heap" "attached 4 pair_heap"
  "covered 3 pair_heap = [123]" "covered 4 pair_heap = []"
  "attached 3 pair_heap_ready" "attached 4 pair_heap_ready"
  "covered 3 pair_heap_ready = [123]" "covered 4 pair_heap_ready = [5]"
  by (simp_all add: attached_def covered_def lock_def pair_heap_def pair_heap_ready_def)

lemma bus_heap_facts:
  "attached 11 (bus_heap xs ys)" "attached 12 (bus_heap xs ys)"
  "covered 11 (bus_heap xs ys) = xs" "covered 12 (bus_heap xs ys) = ys"
  by (simp_all add: attached_def covered_def lock_def bus_heap_def)

text \<open>The test \<open>consumer/bus\<close>, tick by tick; the implementation logs its argument.\<close>

lemma bus_test:
  "tick_consumer (\<lambda>(c, h). bus_pullInput c h) (\<lambda>xs log. log @ [xs])
       ((bus_start, bus_heap [] []), []) = Inr ((bus_start, bus_heap [] []), [])"
  "on_queue 0 (push 123) (bus_heap [] []) = Inr (bus_heap [123] [])"
  "tick_consumer (\<lambda>(c, h). bus_pullInput c h) (\<lambda>xs log. log @ [xs])
       ((bus_start, bus_heap [123] []), [])
     = Inr ((bus_start\<lparr>m_inputs := [123]\<rparr>, bus_heap [] []), [])"
  "on_queue 1 (push 456) (bus_heap [] []) = Inr (bus_heap [] [456])"
  "tick_consumer (\<lambda>(c, h). bus_pullInput c h) (\<lambda>xs log. log @ [xs])
       ((bus_start\<lparr>m_inputs := [123]\<rparr>, bus_heap [] [456]), [])
     = Inr ((bus_start, bus_heap [] []), [[123, 456]])"
  by (simp_all add: tick_consumer_def bus_pullInput_def bus_start_def bus_heap_def
        bus_pullInput_loop.simps View_size_def View_pop_def lock_def begin_of_def end_of_def
        decreaseReferenceCount_def Let_def dec_size_t_def on_queue_def push_def fun_eq_iff)

lemma wf_optional_heap: "wf (optional_heap xs)"
proof -
  have "wf_queue (optional_heap xs) 0
          \<lparr>m_impl = xs, m_referenceCounter = map (\<lambda>x. 1) xs, m_views = {21}\<rparr>"
    by (rule wf_queue_at_front) (auto simp: optional_heap_def)
  then show ?thesis
    unfolding wf_def by (simp add: optional_heap_def)
qed

lemma wf_plain_heap: "wf (plain_heap xs)"
proof -
  have "wf_queue (plain_heap xs) 0
          \<lparr>m_impl = xs, m_referenceCounter = map (\<lambda>x. 1) xs, m_views = {21}\<rparr>"
    by (rule wf_queue_at_front) (auto simp: plain_heap_def)
  then show ?thesis
    unfolding wf_def by (simp add: plain_heap_def)
qed

lemma optional_heap_facts:
  "queues (optional_heap xs) 0
     = Some \<lparr>m_impl = xs, m_referenceCounter = map (\<lambda>x. 1) xs, m_views = {21}\<rparr>"
  "covered 21 (optional_heap xs) = xs"
  "attached 21 (optional_heap xs)"
  by (simp_all add: optional_heap_def covered_def attached_def lock_def)

lemma plain_heap_facts:
  "covered 21 (plain_heap xs) = xs" "attached 21 (plain_heap xs)"
  by (simp_all add: plain_heap_def covered_def attached_def lock_def)

lemma SIZE_MAX_pos: "0 < SIZE_MAX" "SIZE_MAX \<noteq> 0" "\<not> SIZE_MAX \<le> 0" "SIZE_MAX \<noteq> Suc 0"
  by (simp_all add: SIZE_MAX_def)

lemma wf_registered_heap: "wf registered_heap"
proof -
  have "wf_queue registered_heap 0 \<lparr>m_impl = [], m_referenceCounter = [], m_views = {1}\<rparr>"
    by (rule wf_queue_at_front) (auto simp: registered_heap_def)
  then show ?thesis
    unfolding wf_def by (simp add: registered_heap_def)
qed

lemma registered_heap_facts:
  "queues registered_heap 0 = Some \<lparr>m_impl = [], m_referenceCounter = [], m_views = {1}\<rparr>"
  "covered 1 registered_heap = []" "attached 1 registered_heap"
  "queue_of 1 registered_heap = Some 0" "unused 2 registered_heap"
  "\<not> attached 2 registered_heap"
  by (simp_all add: registered_heap_def covered_def attached_def lock_def queue_of_def unused_def)

text \<open>What else the copy of a view that covers an element leads to.\<close>

lemma copy_destroyed:
  "View_dtor 2 copied_heap = Inr copy_destroyed_heap"
  by (simp add: View_dtor_def unregister_if_locked_def unregisterView_def lock_def
        unregisterView_loop.simps decreaseReferenceCount_def Let_def dec_size_t_def
        on_queue_def copied_heap_def copy_destroyed_heap_def fun_eq_iff SIZE_MAX_pos
        insert_Diff_if)

lemma copy_pops:
  "View_pop 2 copied_heap = Inr (7, copy_popped_heap)"
  by (simp add: View_pop_def lock_def begin_of_def end_of_def decreaseReferenceCount_def
        Let_def dec_size_t_def copied_heap_def copy_popped_heap_def fun_eq_iff)

lemma not_wf_copied_heap: "\<not> wf copied_heap"
proof
  assume "wf copied_heap"
  then have "wf_queue copied_heap 0 \<lparr>m_impl = [7], m_referenceCounter = [1], m_views = {1, 2}\<rparr>"
    unfolding wf_def by (simp add: copied_heap_def)
  then have "[1::nat] ! 0 = card {w \<in> {1, 2::nat}. idx_of copied_heap w \<le> 0}"
    unfolding wf_queue_def by simp
  moreover have "{w \<in> {1, 2::nat}. idx_of copied_heap w \<le> 0} = {1, 2}"
    by (auto simp: idx_of_def copied_heap_def)
  ultimately show False by simp
qed

lemma single_heap_facts:
  "queues single_heap 0 = Some \<lparr>m_impl = [7], m_referenceCounter = [1], m_views = {1}\<rparr>"
  "views single_heap 1 = Some \<lparr>m_queue = Some 0, m_idx = 0\<rparr>"
  "covered 1 single_heap = [7]" "unused 2 single_heap"
  by (simp_all add: single_heap_def covered_def lock_def unused_def)

subsection \<open>The queues of a bus producer\<close>

lemma getOutputPipeSource_loop_eq:
  "getOutputPipeSource_loop (length ps) idx ps h =
     (ps @ [next_queue h ..< next_queue h + (Suc idx - length ps)],
      h\<lparr>queues := (\<lambda>q. if next_queue h \<le> q \<and> q < next_queue h + (Suc idx - length ps)
                         then Some empty_Queue else queues h q),
        next_queue := next_queue h + (Suc idx - length ps)\<rparr>)"
proof (induction "Suc idx - length ps" arbitrary: ps h)
  case 0
  then have nle: "\<not> length ps \<le> idx" by simp
  have f: "(\<lambda>q. if next_queue h \<le> q \<and> q < next_queue h then Some empty_Queue else queues h q)
            = queues h"
    by (rule ext) auto
  show ?case using 0 nle by (subst getOutputPipeSource_loop.simps) (simp add: f)
next
  case (Suc n)
  then have le: "length ps \<le> idx" by simp
  let ?nq = "next_queue h"
  let ?h1 = "h\<lparr>queues := (queues h)(?nq \<mapsto> empty_Queue), next_queue := Suc ?nq\<rparr>"
  have n: "n = Suc idx - length (ps @ [?nq])" using Suc.hyps(2) by simp
  have step: "getOutputPipeSource_loop (length ps) idx ps h
                = getOutputPipeSource_loop (length (ps @ [?nq])) idx (ps @ [?nq]) ?h1"
    using le by (subst getOutputPipeSource_loop.simps) (simp add: make_def)
  have d: "Suc idx - length ps = Suc n" using Suc.hyps(2) by simp
  have l: "[?nq ..< ?nq + Suc n] = ?nq # [Suc ?nq ..< Suc ?nq + n]"
    by (simp add: upt_conv_Cons)
  have f: "(\<lambda>q. if Suc ?nq \<le> q \<and> q < Suc ?nq + n then Some empty_Queue
                 else ((queues h)(?nq \<mapsto> empty_Queue)) q)
           = (\<lambda>q. if ?nq \<le> q \<and> q < ?nq + Suc n then Some empty_Queue else queues h q)"
    by (rule ext) auto
  have g: "?h1\<lparr>queues := (\<lambda>q. if next_queue ?h1 \<le> q \<and> q < next_queue ?h1 + n
                         then Some empty_Queue else queues ?h1 q),
        next_queue := next_queue ?h1 + n\<rparr>
         = h\<lparr>queues := (\<lambda>q. if ?nq \<le> q \<and> q < ?nq + Suc n then Some empty_Queue
                              else queues h q),
              next_queue := ?nq + Suc n\<rparr>"
    using f by (simp cong: if_cong)
  show ?case
    unfolding step Suc.hyps(1)[OF n] d l n[symmetric] g by simp
qed

lemma push_empty_Queue [simp]: "push x empty_Queue = empty_Queue"
  by (simp add: push_def empty_Queue_def)

lemma routed_empty_Queue [simp]: "routed vals k empty_Queue = empty_Queue"
  by (simp add: routed_def split: option.splits)

lemma getOutputPipeSource_old:
  "idx < length ps \<Longrightarrow> getOutputPipeSource idx ps h = (ps ! idx, ps, h)"
  by (simp add: getOutputPipeSource_def getOutputPipeSource_loop.simps)

lemma getOutputPipeSource_new:
  assumes le: "length ps \<le> idx" and ok: "pipes_ok ps h"
  shows "\<exists>ps' h'. getOutputPipeSource idx ps h = (ps' ! idx, ps', h')
           \<and> length ps' = Suc idx \<and> take (length ps) ps' = ps \<and> pipes_ok ps' h'
           \<and> views h' = views h
           \<and> (\<forall>k. length ps \<le> k \<and> k < length ps' \<longrightarrow>
                  queues h' (ps' ! k) = Some empty_Queue \<and> next_queue h \<le> ps' ! k)
           \<and> (\<forall>q. q < next_queue h \<longrightarrow> queues h' q = queues h q)
           \<and> next_queue h \<le> next_queue h'"
proof -
  define n where "n = Suc idx - length ps"
  define ps' where "ps' = ps @ [next_queue h ..< next_queue h + n]"
  define h' where "h' = h\<lparr>queues := (\<lambda>q. if next_queue h \<le> q \<and> q < next_queue h + n
                                       then Some empty_Queue else queues h q),
               next_queue := next_queue h + n\<rparr>"
  have n: "length ps + n = Suc idx" using le by (simp add: n_def)
  have g: "getOutputPipeSource idx ps h = (ps' ! idx, ps', h')"
    by (simp add: getOutputPipeSource_def getOutputPipeSource_loop_eq n_def ps'_def h'_def)
  have len: "length ps' = Suc idx" using n by (simp add: ps'_def)
  have tk: "take (length ps) ps' = ps" by (simp add: ps'_def)
  have old: "\<forall>q \<in> set ps. q < next_queue h \<and> queues h q \<noteq> None" and d: "distinct ps"
    using ok by (simp_all add: pipes_ok_def)
  have ok': "pipes_ok ps' h'"
    unfolding pipes_ok_def using old d by (auto simp: ps'_def h'_def)
  have vs: "views h' = views h" by (simp add: h'_def)
  have new: "\<forall>k. length ps \<le> k \<and> k < length ps' \<longrightarrow>
                  queues h' (ps' ! k) = Some empty_Queue \<and> next_queue h \<le> ps' ! k"
    by (auto simp: nth_append ps'_def h'_def)
  have keep: "\<forall>q. q < next_queue h \<longrightarrow> queues h' q = queues h q" by (simp add: h'_def)
  have nq: "next_queue h \<le> next_queue h'" by (simp add: h'_def)
  from g len tk ok' vs new keep nq show ?thesis by blast
qed

lemma bus_pushOutput_at_step:
  assumes ok: "pipes_ok ps h"
  shows "\<exists>ps' h'. bus_pushOutput_at i x ps h = Inr (ps', h') \<and> pipes_ok ps' h'
           \<and> take (length ps) ps' = ps \<and> length ps' = max (length ps) (Suc i)
           \<and> views h' = views h
           \<and> (\<forall>k < length ps. queues h' (ps ! k)
                  = (if k = i then map_option (push x) (queues h (ps ! k)) else queues h (ps ! k)))
           \<and> (\<forall>k. length ps \<le> k \<and> k < length ps' \<longrightarrow>
                  queues h' (ps' ! k) = Some empty_Queue \<and> next_queue h \<le> ps' ! k)
           \<and> (\<forall>q. q < next_queue h \<and> q \<notin> set ps \<longrightarrow> queues h' q = queues h q)
           \<and> next_queue h \<le> next_queue h'"
proof (cases "i < length ps")
  case True
  from True have "ps ! i \<in> set ps" by simp
  with ok obtain Q where Q: "queues h (ps ! i) = Some Q"
    by (auto simp: pipes_ok_def)
  define h' where "h' = h\<lparr>queues := (queues h)(ps ! i \<mapsto> push x Q)\<rparr>"
  have r: "bus_pushOutput_at i x ps h = Inr (ps, h')"
    using True Q by (simp add: bus_pushOutput_at_def getOutputPipeSource_old on_queue_def h'_def)
  have ok': "pipes_ok ps h'" using ok by (auto simp: pipes_ok_def h'_def)
  have d: "distinct ps" using ok by (simp add: pipes_ok_def)
  have tk: "take (length ps) ps = ps" by simp
  have len: "length ps = max (length ps) (Suc i)" using True by (simp add: max_def)
  have vs: "views h' = views h" by (simp add: h'_def)
  have q: "\<forall>k < length ps. queues h' (ps ! k)
                  = (if k = i then map_option (push x) (queues h (ps ! k)) else queues h (ps ! k))"
    using d True Q by (auto simp: nth_eq_iff_index_eq h'_def)
  have new: "\<forall>k. length ps \<le> k \<and> k < length ps \<longrightarrow>
                  queues h' (ps ! k) = Some empty_Queue \<and> next_queue h \<le> ps ! k" by auto
  have o: "\<forall>q. q < next_queue h \<and> q \<notin> set ps \<longrightarrow> queues h' q = queues h q"
    using True by (auto simp: h'_def)
  have nq: "next_queue h \<le> next_queue h'" by (simp add: h'_def)
  from r ok' tk len vs q new o nq show ?thesis by blast
next
  case False
  then have le: "length ps \<le> i" by simp
  from getOutputPipeSource_new[OF le ok] obtain ps' h' where
    g: "getOutputPipeSource i ps h = (ps' ! i, ps', h')"
    and len: "length ps' = Suc i" and tk: "take (length ps) ps' = ps" and ok': "pipes_ok ps' h'"
    and vs: "views h' = views h"
    and new: "\<forall>k. length ps \<le> k \<and> k < length ps' \<longrightarrow>
                  queues h' (ps' ! k) = Some empty_Queue \<and> next_queue h \<le> ps' ! k"
    and keep: "\<forall>q. q < next_queue h \<longrightarrow> queues h' q = queues h q"
    and nq: "next_queue h \<le> next_queue h'" by blast
  have qi: "queues h' (ps' ! i) = Some empty_Queue" using new le len by simp
  have same: "h'\<lparr>queues := (queues h')(ps' ! i \<mapsto> empty_Queue)\<rparr> = h'"
    using qi by (simp add: fun_upd_idem)
  have r: "bus_pushOutput_at i x ps h = Inr (ps', h')"
    using g qi same by (simp add: bus_pushOutput_at_def on_queue_def)
  have old: "\<forall>k < length ps. queues h' (ps ! k) = queues h (ps ! k)"
    using keep ok by (auto simp: pipes_ok_def)
  have q: "\<forall>k < length ps. queues h' (ps ! k)
                  = (if k = i then map_option (push x) (queues h (ps ! k)) else queues h (ps ! k))"
    using old le by auto
  have o: "\<forall>q. q < next_queue h \<and> q \<notin> set ps \<longrightarrow> queues h' q = queues h q"
    using keep by simp
  have len': "length ps' = max (length ps) (Suc i)" using len le by (simp add: max_def)
  from r ok' tk len' vs q new o nq show ?thesis by blast
qed

lemma routed_Cons_None: "routed (None # xs) (Suc j) Q = routed xs j Q" "routed (None # xs) 0 Q = Q"
  by (simp_all add: routed_def)

lemma routed_Cons_Some:
  "routed (Some x # xs) (Suc j) Q = routed xs j Q" "routed (Some x # xs) 0 Q = push x Q"
  by (simp_all add: routed_def)

lemma bus_pushOutput_optional_from_routes:
  assumes "pipes_ok ps h"
  shows "\<exists>ps' h'. bus_pushOutput_optional_from i vals ps h = Inr (ps', h') \<and> pipes_ok ps' h'
           \<and> take (length ps) ps' = ps \<and> views h' = views h
           \<and> (\<forall>k < length ps. queues h' (ps ! k)
                  = map_option (\<lambda>Q. if i \<le> k then routed vals (k - i) Q else Q)
                      (queues h (ps ! k)))
           \<and> (\<forall>k. length ps \<le> k \<and> k < length ps' \<longrightarrow>
                  queues h' (ps' ! k) = Some empty_Queue \<and> next_queue h \<le> ps' ! k)
           \<and> (\<forall>q. q < next_queue h \<and> q \<notin> set ps \<longrightarrow> queues h' q = queues h q)
           \<and> next_queue h \<le> next_queue h'
           \<and> (i + length vals \<le> length ps \<longrightarrow> ps' = ps)"
  using assms
proof (induction vals arbitrary: i ps h)
  case Nil
  have "\<And>k. (\<lambda>Q::'a Queue. if i \<le> k then routed [] (k - i) Q else Q) = (\<lambda>Q. Q)"
    by (simp add: routed_def cong: if_cong)
  then have "\<forall>k < length ps. queues h (ps ! k)
          = map_option (\<lambda>Q. if i \<le> k then routed [] (k - i) Q else Q) (queues h (ps ! k))"
    by (simp add: option.map_ident)
  then show ?case using Nil by auto
next
  case (Cons x xs)
  show ?case
  proof (cases x)
    case None
    from Cons.IH[OF Cons.prems, of "Suc i"] obtain ps' h' where
      r: "bus_pushOutput_optional_from (Suc i) xs ps h = Inr (ps', h')" and ok': "pipes_ok ps' h'"
      and tk: "take (length ps) ps' = ps" and vs: "views h' = views h"
      and q: "\<forall>k < length ps. queues h' (ps ! k)
                  = map_option (\<lambda>Q. if Suc i \<le> k then routed xs (k - Suc i) Q else Q)
                      (queues h (ps ! k))"
      and new: "\<forall>k. length ps \<le> k \<and> k < length ps' \<longrightarrow>
                  queues h' (ps' ! k) = Some empty_Queue \<and> next_queue h \<le> ps' ! k"
      and o: "\<forall>q. q < next_queue h \<and> q \<notin> set ps \<longrightarrow> queues h' q = queues h q"
      and nq: "next_queue h \<le> next_queue h'"
      and same: "Suc i + length xs \<le> length ps \<longrightarrow> ps' = ps" by blast
    have r': "bus_pushOutput_optional_from i (x # xs) ps h = Inr (ps', h')"
      using None r by (simp add: bus_pushOutput_at_optional_def)
    have f: "\<And>k Q. (if Suc i \<le> k then routed xs (k - Suc i) Q else Q)
                  = (if i \<le> k then routed (x # xs) (k - i) Q else Q)"
    proof -
      fix k Q
      show "(if Suc i \<le> k then routed xs (k - Suc i) Q else Q)
                  = (if i \<le> k then routed (x # xs) (k - i) Q else Q)"
      proof (cases "Suc i \<le> k")
        case True
        then have "k - i = Suc (k - Suc i)" by simp
        then show ?thesis using True None by (simp add: routed_Cons_None)
      next
        case False
        then show ?thesis using None by (cases "i \<le> k") (auto simp: routed_Cons_None)
      qed
    qed
    have q': "\<forall>k < length ps. queues h' (ps ! k)
                  = map_option (\<lambda>Q. if i \<le> k then routed (x # xs) (k - i) Q else Q)
                      (queues h (ps ! k))"
      using q unfolding f .
    have same': "i + length (x # xs) \<le> length ps \<longrightarrow> ps' = ps" using same by simp
    from r' ok' tk vs q' new o nq same' show ?thesis by blast
  next
    case (Some v)
    from bus_pushOutput_at_step[OF Cons.prems, of i v] obtain ps1 h1 where
      r1: "bus_pushOutput_at i v ps h = Inr (ps1, h1)" and ok1: "pipes_ok ps1 h1"
      and tk1: "take (length ps) ps1 = ps" and len1: "length ps1 = max (length ps) (Suc i)"
      and vs1: "views h1 = views h"
      and q1: "\<forall>k < length ps. queues h1 (ps ! k)
                  = (if k = i then map_option (push v) (queues h (ps ! k)) else queues h (ps ! k))"
      and new1: "\<forall>k. length ps \<le> k \<and> k < length ps1 \<longrightarrow>
                  queues h1 (ps1 ! k) = Some empty_Queue \<and> next_queue h \<le> ps1 ! k"
      and o1: "\<forall>q. q < next_queue h \<and> q \<notin> set ps \<longrightarrow> queues h1 q = queues h q"
      and nq1: "next_queue h \<le> next_queue h1" by blast
    from Cons.IH[OF ok1, of "Suc i"] obtain ps2 h2 where
      r2: "bus_pushOutput_optional_from (Suc i) xs ps1 h1 = Inr (ps2, h2)"
      and ok2: "pipes_ok ps2 h2"
      and tk2: "take (length ps1) ps2 = ps1" and vs2: "views h2 = views h1"
      and q2: "\<forall>k < length ps1. queues h2 (ps1 ! k)
                  = map_option (\<lambda>Q. if Suc i \<le> k then routed xs (k - Suc i) Q else Q)
                      (queues h1 (ps1 ! k))"
      and new2: "\<forall>k. length ps1 \<le> k \<and> k < length ps2 \<longrightarrow>
                  queues h2 (ps2 ! k) = Some empty_Queue \<and> next_queue h1 \<le> ps2 ! k"
      and o2: "\<forall>q. q < next_queue h1 \<and> q \<notin> set ps1 \<longrightarrow> queues h2 q = queues h1 q"
      and nq2: "next_queue h1 \<le> next_queue h2"
      and same2: "Suc i + length xs \<le> length ps1 \<longrightarrow> ps2 = ps1" by blast
    have l12: "length ps \<le> length ps1" using len1 by simp
    have l23: "length ps1 \<le> length ps2"
    proof -
      have "length (take (length ps1) ps2) = length ps1" using tk2 by simp
      then show ?thesis by simp
    qed
    have n1: "\<And>k. k < length ps \<Longrightarrow> ps1 ! k = ps ! k"
      using tk1 by (metis nth_take)
    have n2: "\<And>k. k < length ps1 \<Longrightarrow> ps2 ! k = ps1 ! k"
      using tk2 by (metis nth_take)
    have r: "bus_pushOutput_optional_from i (x # xs) ps h = Inr (ps2, h2)"
      using Some r1 r2 by (simp add: bus_pushOutput_at_optional_def)
    have tk: "take (length ps) ps2 = ps"
    proof -
      have "take (length ps) ps2 = take (length ps) (take (length ps1) ps2)"
        using l12 by (simp add: min_def)
      then show ?thesis using tk2 tk1 by simp
    qed
    have vs: "views h2 = views h" using vs1 vs2 by simp
    have q: "\<forall>k < length ps. queues h2 (ps ! k)
                  = map_option (\<lambda>Q. if i \<le> k then routed (x # xs) (k - i) Q else Q)
                      (queues h (ps ! k))"
    proof (intro allI impI)
      fix k assume k: "k < length ps"
      then have k1: "k < length ps1" using l12 by simp
      have a: "queues h2 (ps ! k)
                 = map_option (\<lambda>Q. if Suc i \<le> k then routed xs (k - Suc i) Q else Q)
                      (queues h1 (ps ! k))"
        using q2 k1 n1[OF k] by auto
      have b: "queues h1 (ps ! k)
                 = (if k = i then map_option (push v) (queues h (ps ! k)) else queues h (ps ! k))"
        using q1 k by blast
      show "queues h2 (ps ! k)
                  = map_option (\<lambda>Q. if i \<le> k then routed (x # xs) (k - i) Q else Q)
                      (queues h (ps ! k))"
      proof (cases "k = i")
        case True
        then show ?thesis
          using a b Some by (simp add: routed_Cons_Some option.map_comp comp_def)
      next
        case False
        show ?thesis
        proof (cases "Suc i \<le> k")
          case True
          then have "k - i = Suc (k - Suc i)" by simp
          then show ?thesis using a b False True Some by (simp add: routed_Cons_Some)
        next
          case nle: False
          with False have "\<not> i \<le> k" by simp
          then show ?thesis using a b False nle by simp
        qed
      qed
    qed
    have new: "\<forall>k. length ps \<le> k \<and> k < length ps2 \<longrightarrow>
                  queues h2 (ps2 ! k) = Some empty_Queue \<and> next_queue h \<le> ps2 ! k"
    proof (intro allI impI)
      fix k assume k: "length ps \<le> k \<and> k < length ps2"
      show "queues h2 (ps2 ! k) = Some empty_Queue \<and> next_queue h \<le> ps2 ! k"
      proof (cases "k < length ps1")
        case True
        with k new1 have e: "queues h1 (ps1 ! k) = Some empty_Queue" "next_queue h \<le> ps1 ! k"
          by simp_all
        have "queues h2 (ps1 ! k)
                = map_option (\<lambda>Q. if Suc i \<le> k then routed xs (k - Suc i) Q else Q)
                      (queues h1 (ps1 ! k))" using q2 True by blast
        then have "queues h2 (ps1 ! k) = Some empty_Queue" using e by simp
        then show ?thesis using e n2[OF True] by simp
      next
        case False
        with k new2 have "queues h2 (ps2 ! k) = Some empty_Queue" "next_queue h1 \<le> ps2 ! k"
          by simp_all
        then show ?thesis using nq1 by simp
      qed
    qed
    have o: "\<forall>q. q < next_queue h \<and> q \<notin> set ps \<longrightarrow> queues h2 q = queues h q"
    proof (intro allI impI)
      fix q assume a: "q < next_queue h \<and> q \<notin> set ps"
      have "q \<notin> set ps1"
      proof
        assume "q \<in> set ps1"
        then obtain k where k: "k < length ps1" "ps1 ! k = q" by (auto simp: in_set_conv_nth)
        show False
        proof (cases "k < length ps")
          case True
          then have "ps ! k = q" using n1 k by simp
          with True a show False by auto
        next
          case False
          with k new1 have "next_queue h \<le> q" by auto
          with a show False by simp
        qed
      qed
      then have "queues h2 q = queues h1 q" using o2 a nq1 by simp
      then show "queues h2 q = queues h q" using o1 a by simp
    qed
    have nq: "next_queue h \<le> next_queue h2" using nq1 nq2 by simp
    have same: "i + length (x # xs) \<le> length ps \<longrightarrow> ps2 = ps"
    proof
      assume a: "i + length (x # xs) \<le> length ps"
      then have "length ps1 = length ps" using len1 by (simp add: max_def)
      then have "ps1 = ps" using tk1 by (metis take_all order_refl)
      moreover have "ps2 = ps1" using same2 a \<open>length ps1 = length ps\<close> by simp
      ultimately show "ps2 = ps" by simp
    qed
    from r ok2 tk vs q new o nq same show ?thesis by blast
  qed
qed

lemma bus_pushOutput_from_optional:
  "bus_pushOutput_from i xs ps h = bus_pushOutput_optional_from i (map Some xs) ps h"
  by (induction xs arbitrary: i ps h)
     (auto simp: bus_pushOutput_at_optional_def split: sum.splits)

lemma bus_getOutputPipe_grows:
  assumes ok: "pipes_ok ps h"
  shows "\<exists>ps' h'. bus_getOutputPipe idx v ps h = Inr (ps', h')
           \<and> length ps' = max (length ps) (Suc idx) \<and> take (length ps) ps' = ps
           \<and> pipes_ok ps' h'
           \<and> queue_of v h' = Some (ps' ! idx) \<and> attached v h' \<and> covered v h' = []"
proof -
  have "\<exists>ps' h1. getOutputPipeSource idx ps h = (ps' ! idx, ps', h1)
           \<and> length ps' = max (length ps) (Suc idx) \<and> take (length ps) ps' = ps
           \<and> pipes_ok ps' h1"
  proof (cases "idx < length ps")
    case True
    then have "length ps = max (length ps) (Suc idx)" by (simp add: max_def)
    then show ?thesis using True ok getOutputPipeSource_old[OF True, of h] by auto
  next
    case False
    then have le: "length ps \<le> idx" by simp
    then have "Suc idx = max (length ps) (Suc idx)" by (simp add: max_def)
    then show ?thesis using getOutputPipeSource_new[OF le ok] by auto
  qed
  then obtain ps' h1 where g: "getOutputPipeSource idx ps h = (ps' ! idx, ps', h1)"
    and len: "length ps' = max (length ps) (Suc idx)" and tk: "take (length ps) ps' = ps"
    and ok1: "pipes_ok ps' h1" by blast
  have "idx < length ps'" using len by simp
  then have "ps' ! idx \<in> set ps'" by simp
  with ok1 obtain Q where Q: "queues h1 (ps' ! idx) = Some Q" by (auto simp: pipes_ok_def)
  define h' where "h' = h1\<lparr>views := (views h1)(v \<mapsto> \<lparr>m_queue = Some (ps' ! idx),
                                                   m_idx = length (m_impl Q)\<rparr>),
                      queues := (queues h1)(ps' ! idx \<mapsto> Q\<lparr>m_views := insert v (m_views Q)\<rparr>)\<rparr>"
  have r: "bus_getOutputPipe idx v ps h = Inr (ps', h')"
    using g view_eq[OF Q, of v] by (simp add: bus_getOutputPipe_def h'_def)
  have ok': "pipes_ok ps' h'" using ok1 by (auto simp: pipes_ok_def h'_def)
  have qo: "queue_of v h' = Some (ps' ! idx)" by (simp add: queue_of_def h'_def)
  have at: "attached v h'" by (simp add: attached_def lock_def h'_def)
  have cv: "covered v h' = []" by (simp add: covered_def lock_def h'_def)
  from r len tk ok' qo at cv show ?thesis by blast
qed

lemma bus_pushOutput_optional_routes:
  assumes "pipes_ok ps h"
  shows "\<exists>ps' h'. bus_pushOutput_optional vals ps h = Inr (ps', h') \<and> pipes_ok ps' h'
           \<and> take (length ps) ps' = ps \<and> views h' = views h
           \<and> (\<forall>k < length ps. queues h' (ps ! k) = map_option (routed vals k) (queues h (ps ! k)))
           \<and> (\<forall>k. length ps \<le> k \<and> k < length ps' \<longrightarrow> queues h' (ps' ! k) = Some empty_Queue)
           \<and> (length vals \<le> length ps \<longrightarrow> ps' = ps)"
  using bus_pushOutput_optional_from_routes[OF assms, of 0 vals]
  unfolding bus_pushOutput_optional_def by auto

lemma bus_pushOutput_routes:
  assumes "pipes_ok ps h"
  shows "\<exists>ps' h'. bus_pushOutput vals ps h = Inr (ps', h') \<and> pipes_ok ps' h'
           \<and> take (length ps) ps' = ps \<and> views h' = views h
           \<and> (\<forall>k < length ps. queues h' (ps ! k)
                  = map_option (routed (map Some vals) k) (queues h (ps ! k)))
           \<and> (\<forall>k. length ps \<le> k \<and> k < length ps' \<longrightarrow> queues h' (ps' ! k) = Some empty_Queue)
           \<and> (length vals \<le> length ps \<longrightarrow> ps' = ps)"
  using bus_pushOutput_optional_routes[OF assms, of "map Some vals"]
  unfolding bus_pushOutput_def bus_pushOutput_optional_def bus_pushOutput_from_optional by simp

lemma unmatched_pipe_stays_empty:
  assumes ok: "pipes_ok ps h" and len: "length vals \<le> k" and k: "k < length ps"
  shows "\<exists>h'. tick_times n (tick_producer (\<lambda>u. (vals, u))
                   (\<lambda>out m. bus_pushOutput out (fst m) (snd m))) ((ps, h), u)
                 = Inr ((ps, h'), u)
             \<and> pipes_ok ps h' \<and> views h' = views h \<and> queues h' (ps ! k) = queues h (ps ! k)"
  using ok
proof (induction n arbitrary: h)
  case 0
  then show ?case by simp
next
  case (Suc n)
  from bus_pushOutput_routes[OF Suc.prems, of vals] len k obtain h1 where
    r: "bus_pushOutput vals ps h = Inr (ps, h1)" and ok1: "pipes_ok ps h1"
    and vs: "views h1 = views h"
    and q: "\<forall>j < length ps. queues h1 (ps ! j)
                  = map_option (routed (map Some vals) j) (queues h (ps ! j))"
    by auto
  have "routed (map Some vals) k = (\<lambda>Q. Q)" using len by (simp add: routed_def fun_eq_iff)
  then have qk: "queues h1 (ps ! k) = queues h (ps ! k)"
    using q k by (simp add: option.map_ident)
  from Suc.IH[OF ok1] obtain h2 where
    "tick_times n (tick_producer (\<lambda>u. (vals, u))
                   (\<lambda>out m. bus_pushOutput out (fst m) (snd m))) ((ps, h1), u)
                 = Inr ((ps, h2), u)"
    "pipes_ok ps h2" "views h2 = views h1" "queues h2 (ps ! k) = queues h1 (ps ! k)" by blast
  moreover have "tick_producer (\<lambda>u. (vals, u))
                   (\<lambda>out m. bus_pushOutput out (fst m) (snd m)) ((ps, h), u)
                 = Inr ((ps, h1), u)"
    using r by (simp add: tick_producer_def)
  ultimately show ?case using vs qk by auto
qed

lemma routed_map_Some:
  "routed (map Some vals) k Q = (if k < length vals then push (vals ! k) Q else Q)"
  by (simp add: routed_def)

subsection \<open>The views of a bus producer\<close>

lemma wf_grow:
  assumes w: "wf h"
  shows "wf (h\<lparr>queues := (\<lambda>q. if next_queue h \<le> q \<and> q < next_queue h + n
                              then Some empty_Queue else queues h q),
              next_queue := next_queue h + n\<rparr>)"
proof -
  define h1 where "h1 = h\<lparr>queues := (\<lambda>q. if next_queue h \<le> q \<and> q < next_queue h + n
                              then Some empty_Queue else queues h q),
              next_queue := next_queue h + n\<rparr>"
  have h1s: "views h1 = views h" "next_queue h1 = next_queue h + n"
    "\<And>q. queues h1 q = (if next_queue h \<le> q \<and> q < next_queue h + n
                              then Some empty_Queue else queues h q)"
    by (simp_all add: h1_def)
  have "wf h1"
    unfolding wf_def
  proof (intro conjI allI impI)
    fix q Q assume Q: "queues h1 q = Some Q"
    show "wf_queue h1 q Q"
    proof (cases "next_queue h \<le> q \<and> q < next_queue h + n")
      case True
      then have "Q = empty_Queue" using Q by (simp add: h1s)
      then show ?thesis by (simp add: wf_queue_empty_Queue)
    next
      case False
      then have "queues h q = Some Q" using Q by (auto simp: h1s split: if_splits)
      then have "wf_queue h q Q" using w unfolding wf_def by blast
      moreover have "wf_queue h1 q Q = wf_queue h q Q"
        by (rule wf_queue_cong) (simp add: h1s)
      ultimately show ?thesis by simp
    qed
    show "q < next_queue h1"
    proof (cases "next_queue h \<le> q \<and> q < next_queue h + n")
      case True
      then show ?thesis by (simp add: h1s)
    next
      case False
      then have "queues h q = Some Q" using Q by (auto simp: h1s split: if_splits)
      then have "q < next_queue h" using w unfolding wf_def by blast
      then show ?thesis by (simp add: h1s)
    qed
  next
    fix v V q assume a: "views h1 v = Some V \<and> m_queue V = Some q"
    then have a': "views h v = Some V \<and> m_queue V = Some q" by (simp add: h1s)
    then have lt: "q < next_queue h" using w unfolding wf_def by blast
    then show "q < next_queue h1" by (simp add: h1s)
  next
    fix v V q Q assume a: "views h1 v = Some V \<and> m_queue V = Some q"
      and Q: "queues h1 q = Some Q"
    from a have a': "views h v = Some V \<and> m_queue V = Some q" by (simp add: h1s)
    then have lt: "q < next_queue h" using w unfolding wf_def by blast
    with Q have "queues h q = Some Q" by (auto simp: h1s split: if_splits)
    then show "v \<in> m_views Q" using w a' unfolding wf_def by blast
  qed
  then show ?thesis by (simp add: h1_def)
qed

lemma unused_grow:
  assumes "unused v h"
  shows "unused v (h\<lparr>queues := (\<lambda>q. if next_queue h \<le> q \<and> q < next_queue h + n
                              then Some empty_Queue else queues h q),
              next_queue := next_queue h + n\<rparr>)"
  using assms by (auto simp: unused_def empty_Queue_def split: if_splits)

lemma getOutputPipeSource_form:
  "getOutputPipeSource idx ps h =
     ((ps @ [next_queue h ..< next_queue h + (Suc idx - length ps)]) ! idx,
      ps @ [next_queue h ..< next_queue h + (Suc idx - length ps)],
      h\<lparr>queues := (\<lambda>q. if next_queue h \<le> q \<and> q < next_queue h + (Suc idx - length ps)
                         then Some empty_Queue else queues h q),
        next_queue := next_queue h + (Suc idx - length ps)\<rparr>)"
  by (simp add: getOutputPipeSource_def getOutputPipeSource_loop_eq)

lemma getOutputPipeSource_wf:
  assumes "wf h" and "getOutputPipeSource idx ps h = (q, ps', h')"
  shows "wf h'" and "unused v h \<Longrightarrow> unused v h'"
proof -
  from assms(2) have e: "h' = h\<lparr>queues := (\<lambda>q. if next_queue h \<le> q \<and> q < next_queue h + (Suc idx - length ps)
                         then Some empty_Queue else queues h q),
        next_queue := next_queue h + (Suc idx - length ps)\<rparr>"
    by (simp add: getOutputPipeSource_form)
  show "wf h'" unfolding e by (rule wf_grow[OF assms(1)])
  show "unused v h \<Longrightarrow> unused v h'" unfolding e by (rule unused_grow)
qed

lemma bus_pushOutput_at_wf:
  assumes w: "wf h" and r: "bus_pushOutput_at i x ps h = Inr (ps', h')"
  shows "wf h'"
proof -
  obtain q ps1 h1 where g: "getOutputPipeSource i ps h = (q, ps1, h1)"
    by (cases "getOutputPipeSource i ps h") auto
  have w1: "wf h1" by (rule getOutputPipeSource_wf(1)[OF w g])
  from r g obtain Q where Q: "queues h1 q = Some Q"
    and e: "h' = h1\<lparr>queues := (queues h1)(q \<mapsto> push x Q)\<rparr>"
    by (auto simp: bus_pushOutput_at_def on_queue_def split: option.splits)
  show ?thesis unfolding e by (rule wf_push[OF w1 Q])
qed

lemma bus_pushOutput_optional_from_wf:
  "wf h \<Longrightarrow> bus_pushOutput_optional_from i vals ps h = Inr (ps', h') \<Longrightarrow> wf h'"
proof (induction vals arbitrary: i ps h)
  case Nil
  then show ?case by simp
next
  case (Cons a vals)
  show ?case
  proof (cases a)
    case None
    with Cons.prems(2) have "bus_pushOutput_optional_from (i + 1) vals ps h = Inr (ps', h')"
      by (simp add: bus_pushOutput_at_optional_def)
    from Cons.IH[OF Cons.prems(1) this] show ?thesis .
  next
    case (Some x)
    with Cons.prems(2) obtain ps1 h1 where
      s: "bus_pushOutput_at i x ps h = Inr (ps1, h1)"
      and t: "bus_pushOutput_optional_from (i + 1) vals ps1 h1 = Inr (ps', h')"
      by (auto simp: bus_pushOutput_at_optional_def split: sum.splits)
    from bus_pushOutput_at_wf[OF Cons.prems(1) s] have "wf h1" .
    from Cons.IH[OF this t] show ?thesis .
  qed
qed

lemma routed_covered:
  assumes w: "wf h" and U: "views h u = Some U" and mq: "m_queue U = Some q"
    and Q: "queues h q = Some Q"
    and vs: "views h' = views h" and q': "queues h' q = Some (routed vals k Q)"
  shows "covered u h' = covered u h
           @ (if k < length vals then (case vals ! k of None \<Rightarrow> [] | Some x \<Rightarrow> [x]) else [])"
proof -
  from wf_registered[OF w U mq Q] have m: "u \<in> m_views Q" and wq: "wf_queue h q Q" by simp_all
  from wf_queue_member[OF wq m U] have le: "m_idx U \<le> length (m_impl Q)" by simp
  have ne: "m_views Q \<noteq> {}" using m by auto
  have c: "covered u h = drop (m_idx U) (m_impl Q)" by (rule covered_eq[OF U mq Q])
  have U': "views h' u = Some U" using U vs by simp
  have c': "covered u h' = drop (m_idx U) (m_impl (routed vals k Q))"
    by (rule covered_eq[OF U' mq q'])
  show ?thesis
    unfolding c c' using le ne
    by (simp add: routed_def push_def split: option.splits)
qed

lemma bus_pushOutput_optional_covered:
  assumes ok: "pipes_ok ps h" and w: "wf h"
  shows "\<exists>ps' h'. bus_pushOutput_optional vals ps h = Inr (ps', h') \<and> wf h' \<and> pipes_ok ps' h'
           \<and> take (length ps) ps' = ps
           \<and> (\<forall>k < length ps. \<forall>u. queue_of u h = Some (ps ! k) \<longrightarrow>
                 covered u h' = covered u h
                   @ (if k < length vals
                      then (case vals ! k of None \<Rightarrow> [] | Some x \<Rightarrow> [x]) else []))
           \<and> (\<forall>u. (\<forall>k < length ps. queue_of u h \<noteq> Some (ps ! k)) \<longrightarrow>
                 covered u h' = covered u h)"
proof -
  from bus_pushOutput_optional_from_routes[OF ok, of 0 vals] obtain ps' h' where
    r: "bus_pushOutput_optional_from 0 vals ps h = Inr (ps', h')" and ok': "pipes_ok ps' h'"
    and tk: "take (length ps) ps' = ps" and vs: "views h' = views h"
    and qs: "\<forall>k < length ps. queues h' (ps ! k)
                  = map_option (\<lambda>Q. if 0 \<le> k then routed vals (k - 0) Q else Q)
                      (queues h (ps ! k))"
    and keep: "\<forall>q. q < next_queue h \<and> q \<notin> set ps \<longrightarrow> queues h' q = queues h q"
    by blast
  have w': "wf h'" by (rule bus_pushOutput_optional_from_wf[OF w r])
  have A: "\<forall>k < length ps. \<forall>u. queue_of u h = Some (ps ! k) \<longrightarrow>
                 covered u h' = covered u h
                   @ (if k < length vals
                      then (case vals ! k of None \<Rightarrow> [] | Some x \<Rightarrow> [x]) else [])"
  proof (intro allI impI)
    fix k u assume k: "k < length ps" and qo: "queue_of u h = Some (ps ! k)"
    from qo obtain U where U: "views h u = Some U" and mq: "m_queue U = Some (ps ! k)"
      by (auto simp: queue_of_def split: option.splits)
    from k have "ps ! k \<in> set ps" by simp
    with ok obtain Q where Q: "queues h (ps ! k) = Some Q"
      by (auto simp: pipes_ok_def)
    from qs k Q have q': "queues h' (ps ! k) = Some (routed vals k Q)" by simp
    show "covered u h' = covered u h
                   @ (if k < length vals
                      then (case vals ! k of None \<Rightarrow> [] | Some x \<Rightarrow> [x]) else [])"
      by (rule routed_covered[OF w U mq Q vs q'])
  qed
  have B: "\<forall>u. (\<forall>k < length ps. queue_of u h \<noteq> Some (ps ! k)) \<longrightarrow>
                 covered u h' = covered u h"
  proof (intro allI impI)
    fix u assume n: "\<forall>k < length ps. queue_of u h \<noteq> Some (ps ! k)"
    show "covered u h' = covered u h"
    proof (cases "views h u")
      case None
      then show ?thesis using vs by (simp add: covered_def)
    next
      case (Some U)
      show ?thesis
      proof (cases "m_queue U")
        case None
        then show ?thesis using Some vs by (simp add: covered_def lock_def)
      next
        case mq: (Some q)
        have "q \<notin> set ps"
        proof
          assume "q \<in> set ps"
          then obtain k where "k < length ps" "ps ! k = q" by (auto simp: in_set_conv_nth)
          with n Some mq show False by (auto simp: queue_of_def)
        qed
        moreover have "q < next_queue h" using w Some mq unfolding wf_def by blast
        ultimately have "queues h' q = queues h q" using keep by blast
        then show ?thesis using Some mq vs by (simp add: covered_def lock_def)
      qed
    qed
  qed
  from r w' ok' tk A B show ?thesis unfolding bus_pushOutput_optional_def by blast
qed

lemma bus_pushOutput_covered:
  assumes ok: "pipes_ok ps h" and w: "wf h"
  shows "\<exists>ps' h'. bus_pushOutput vals ps h = Inr (ps', h') \<and> wf h' \<and> pipes_ok ps' h'
           \<and> take (length ps) ps' = ps
           \<and> (\<forall>k < length ps. \<forall>u. queue_of u h = Some (ps ! k) \<longrightarrow>
                 covered u h' = covered u h @ (if k < length vals then [vals ! k] else []))
           \<and> (\<forall>u. (\<forall>k < length ps. queue_of u h \<noteq> Some (ps ! k)) \<longrightarrow>
                 covered u h' = covered u h)"
proof -
  have e: "bus_pushOutput vals ps h = bus_pushOutput_optional (map Some vals) ps h"
    by (simp add: bus_pushOutput_def bus_pushOutput_optional_def bus_pushOutput_from_optional)
  have s: "\<And>k. (if k < length (map Some vals)
                 then (case map Some vals ! k of None \<Rightarrow> [] | Some x \<Rightarrow> [x]) else [])
               = (if k < length vals then [vals ! k] else [])"
    by simp
  show ?thesis
    using bus_pushOutput_optional_covered[OF ok w, of "map Some vals"]
    unfolding e s .
qed

lemma bus_getOutputPipe_registers:
  assumes ok: "pipes_ok ps h"
  shows "\<exists>ps' h' Q'. bus_getOutputPipe idx v ps h = Inr (ps', h')
           \<and> length ps' = max (length ps) (Suc idx) \<and> take (length ps) ps' = ps
           \<and> pipes_ok ps' h'
           \<and> queues h' (ps' ! idx) = Some Q' \<and> v \<in> m_views Q'
           \<and> views h' v = Some \<lparr>m_queue = Some (ps' ! idx), m_idx = length (m_impl Q')\<rparr>
           \<and> queue_of v h' = Some (ps' ! idx) \<and> attached v h' \<and> covered v h' = []
           \<and> (wf h \<and> unused v h \<longrightarrow> wf h')"
proof -
  obtain q ps' h1 where g: "getOutputPipeSource idx ps h = (q, ps', h1)"
    by (cases "getOutputPipeSource idx ps h") auto
  from bus_getOutputPipe_grows[OF ok, of idx v] obtain ps2 h' where
    r: "bus_getOutputPipe idx v ps h = Inr (ps2, h')"
    and len: "length ps2 = max (length ps) (Suc idx)" and tk: "take (length ps) ps2 = ps"
    and ok': "pipes_ok ps2 h'"
    and qo: "queue_of v h' = Some (ps2 ! idx)" and at: "attached v h'" and cv: "covered v h' = []"
    by blast
  from r g have p2: "ps2 = ps'" by (auto simp: bus_getOutputPipe_def split: sum.splits)
  from g have q: "q = ps' ! idx" by (auto simp: getOutputPipeSource_def split: prod.splits)
  from r g obtain Q where Q: "queues h1 q = Some Q"
    by (auto simp: bus_getOutputPipe_def view_def View_of_Queue_def split: sum.splits option.splits)
  have e: "h' = h1\<lparr>views := (views h1)(v \<mapsto> \<lparr>m_queue = Some q, m_idx = length (m_impl Q)\<rparr>),
                      queues := (queues h1)(q \<mapsto> Q\<lparr>m_views := insert v (m_views Q)\<rparr>)\<rparr>"
    using r g view_eq[OF Q, of v] by (simp add: bus_getOutputPipe_def)
  define Q' where "Q' = Q\<lparr>m_views := insert v (m_views Q)\<rparr>"
  have a: "queues h' (ps' ! idx) = Some Q'" by (simp add: e Q'_def q)
  have b: "v \<in> m_views Q'" by (simp add: Q'_def)
  have c: "views h' v = Some \<lparr>m_queue = Some (ps' ! idx), m_idx = length (m_impl Q')\<rparr>"
    by (simp add: e Q'_def q)
  have d: "wf h \<and> unused v h \<longrightarrow> wf h'"
  proof
    assume wu: "wf h \<and> unused v h"
    then have "wf h1" "unused v h1"
      using getOutputPipeSource_wf[OF _ g] by blast+
    then show "wf h'" unfolding e by (intro wf_view Q)
  qed
  from r len tk ok' qo at cv a b c d show ?thesis unfolding p2 by blast
qed

lemma bus_getOutputPipe_then_push:
  assumes ok: "pipes_ok ps h" and w: "wf h" and un: "unused v h"
  shows "\<exists>ps' h'. bus_getOutputPipe idx v ps h = Inr (ps', h') \<and> wf h'
          \<and> (\<exists>ps'' h''. bus_pushOutput vals ps' h' = Inr (ps'', h'') \<and> wf h''
                \<and> covered v h'' = (if idx < length vals then [vals ! idx] else [])
                \<and> (idx < length vals \<longrightarrow> (\<exists>h3. View_pop v h'' = Inr (vals ! idx, h3))))
          \<and> (\<exists>ps'' h''. bus_pushOutput_optional ovals ps' h' = Inr (ps'', h'') \<and> wf h''
                \<and> covered v h'' = (if idx < length ovals
                                    then (case ovals ! idx of None \<Rightarrow> [] | Some x \<Rightarrow> [x])
                                    else []))"
proof -
  from bus_getOutputPipe_registers[OF ok, of idx v] w un obtain ps' h' where
    r: "bus_getOutputPipe idx v ps h = Inr (ps', h')"
    and len: "length ps' = max (length ps) (Suc idx)"
    and ok': "pipes_ok ps' h'"
    and qo: "queue_of v h' = Some (ps' ! idx)" and cv: "covered v h' = []"
    and w': "wf h'"
    by blast
  have i: "idx < length ps'" using len by simp
  from bus_pushOutput_covered[OF ok' w', of vals] obtain ps2 h2 where
    p: "bus_pushOutput vals ps' h' = Inr (ps2, h2)" and w2: "wf h2"
    and c: "\<forall>k < length ps'. \<forall>u. queue_of u h' = Some (ps' ! k) \<longrightarrow>
                 covered u h2 = covered u h' @ (if k < length vals then [vals ! k] else [])"
    by blast
  from c i qo cv have c2: "covered v h2 = (if idx < length vals then [vals ! idx] else [])"
    by simp
  have pop: "idx < length vals \<longrightarrow> (\<exists>h3. View_pop v h2 = Inr (vals ! idx, h3))"
  proof
    assume "idx < length vals"
    then have "covered v h2 = [vals ! idx]" using c2 by simp
    then show "\<exists>h3. View_pop v h2 = Inr (vals ! idx, h3)"
      using pop_covered[OF w2, of v] by auto
  qed
  from bus_pushOutput_optional_covered[OF ok' w', of ovals] obtain ps3 h3 where
    po: "bus_pushOutput_optional ovals ps' h' = Inr (ps3, h3)" and w3: "wf h3"
    and co: "\<forall>k < length ps'. \<forall>u. queue_of u h' = Some (ps' ! k) \<longrightarrow>
                 covered u h3 = covered u h'
                   @ (if k < length ovals
                      then (case ovals ! k of None \<Rightarrow> [] | Some x \<Rightarrow> [x]) else [])"
    by blast
  from co i qo cv have c3: "covered v h3 = (if idx < length ovals
                                    then (case ovals ! idx of None \<Rightarrow> [] | Some x \<Rightarrow> [x])
                                    else [])"
    by simp
  from r w' p w2 c2 pop po w3 c3 show ?thesis by blast
qed

lemma unmatched_pipe_covered:
  assumes "views h' = views h" and "queues h' q = queues h q" and "queue_of u h = Some q"
  shows "covered u h' = covered u h"
  using assms by (auto simp: covered_def queue_of_def lock_def split: option.splits)

subsection \<open>The test \<open>producer/bus\<close>\<close>

lemma bus_out_heap_facts:
  "pipes_ok [] (empty_heap :: nat heap)"
  "pipes_ok [0] bus_out_heap1" "pipes_ok [0, 1] bus_out_heap2"
  "pipes_ok [0, 1, 2] (bus_out_heap xs ys zs)"
  "covered 31 (bus_out_heap xs ys zs) = xs" "covered 32 (bus_out_heap xs ys zs) = ys"
  "covered 33 (bus_out_heap xs ys zs) = zs"
  by (simp_all add: pipes_ok_def empty_heap_def bus_out_heap1_def bus_out_heap2_def
        bus_out_heap_def covered_def lock_def)

lemma wf_bus_out_heap: "wf (bus_out_heap xs ys zs)"
proof -
  have "wf_queue (bus_out_heap xs ys zs) 0
          \<lparr>m_impl = xs, m_referenceCounter = map (\<lambda>x. 1) xs, m_views = {31}\<rparr>"
    by (rule wf_queue_at_front) (auto simp: bus_out_heap_def)
  moreover have "wf_queue (bus_out_heap xs ys zs) 1
          \<lparr>m_impl = ys, m_referenceCounter = map (\<lambda>x. 1) ys, m_views = {32}\<rparr>"
    by (rule wf_queue_at_front) (auto simp: bus_out_heap_def)
  moreover have "wf_queue (bus_out_heap xs ys zs) 2
          \<lparr>m_impl = zs, m_referenceCounter = map (\<lambda>x. 1) zs, m_views = {33}\<rparr>"
    by (rule wf_queue_at_front) (auto simp: bus_out_heap_def)
  ultimately show ?thesis
    unfolding wf_def by (simp add: bus_out_heap_def)
qed

lemma bus_producer_test:
  "bus_getOutputPipe 0 31 [] empty_heap = Inr ([0], bus_out_heap1)"
  "bus_getOutputPipe 1 32 [0] bus_out_heap1 = Inr ([0, 1], bus_out_heap2)"
  "bus_getOutputPipe 2 33 [0, 1] bus_out_heap2 = Inr ([0, 1, 2], bus_out_heap [] [] [])"
  "tick_producer (\<lambda>u. ([1, 2], u)) (\<lambda>out m. bus_pushOutput out (fst m) (snd m))
       (([0, 1, 2], bus_out_heap [] [] []), ())
     = Inr (([0, 1, 2], bus_out_heap [1] [2] []), ())"
  "View_pop 31 (bus_out_heap [1] [2] []) = Inr (1, bus_out_heap [] [2] [])"
  "View_pop 32 (bus_out_heap [] [2] []) = Inr (2, bus_out_heap [] [] [])"
  "View_size 33 (bus_out_heap [] [] []) = Inr 0"
  by (simp_all add: bus_getOutputPipe_def getOutputPipeSource_def getOutputPipeSource_loop.simps
        make_def view_def View_of_Queue_def on_queue_def registerView_def empty_Queue_def
        tick_producer_def bus_pushOutput_def bus_pushOutput_at_def push_def
        View_pop_def View_size_def lock_def begin_of_def end_of_def decreaseReferenceCount_def
        Let_def dec_size_t_def
        empty_heap_def bus_out_heap1_def bus_out_heap2_def bus_out_heap_def fun_eq_iff)

lemma bus_out_heap_queue_of:
  "queue_of 31 (bus_out_heap xs ys zs) = Some 0" "queue_of 32 (bus_out_heap xs ys zs) = Some 1"
  "queue_of 33 (bus_out_heap xs ys zs) = Some 2" "unused 31 (empty_heap :: nat heap)"
  by (simp_all add: queue_of_def bus_out_heap_def unused_def empty_heap_def)

section \<open>The properties of the specification\<close>

text \<open>
  C1 (as amended). On a consistent store, \<open>pop\<close> by a view whose queue is alive and whose
  range is not empty returns the element at the view's index. When the count of that slot
  is more than one, the count is decremented and the view's index is incremented, and
  nothing else changes. When the count is one, the slot is the front slot: it is removed
  together with its count, the index of every other registered view, which is at least
  one, is decremented by one, and the index of the popping view, incremented and then
  decremented with the rest, is zero as before. On any store, whoever calls it,
  \<open>decreaseReferenceCount\<close> removes nothing unless the count it decrements becomes zero,
  and then it removes the front slot.
\<close>

theorem pop_on_consistent_store:
  assumes "wf h" "views h v = Some V" "m_queue V = Some q" "queues h q = Some Q"
    and "m_idx V < length (m_impl Q)"
  shows "View_pop v h = Inr (m_impl Q ! m_idx V,
      if m_referenceCounter Q ! m_idx V = 1
      then h\<lparr>views := (\<lambda>w. if w \<in> m_views Q - {v}
                              then map_option (\<lambda>W. W\<lparr>m_idx := m_idx W - 1\<rparr>) (views h w)
                              else views h w),
             queues := (queues h)(q \<mapsto> Q\<lparr>m_impl := tl (m_impl Q),
                                           m_referenceCounter := tl (m_referenceCounter Q)\<rparr>)\<rparr>
      else h\<lparr>views := (views h)(v \<mapsto> V\<lparr>m_idx := m_idx V + 1\<rparr>),
             queues := (queues h)(q \<mapsto> Q\<lparr>m_referenceCounter :=
                (m_referenceCounter Q)[m_idx V := m_referenceCounter Q ! m_idx V - 1]\<rparr>)\<rparr>)
    \<and> 0 < m_referenceCounter Q ! m_idx V
    \<and> (m_referenceCounter Q ! m_idx V = 1 \<longrightarrow>
          m_idx V = 0 \<and> (\<forall>w \<in> m_views Q - {v}. 0 < idx_of h w))
    \<and> (decreaseReferenceCount r i g = Inr g' \<and> queues g r = Some R \<longrightarrow>
          (\<exists>R'. queues g' r = Some R' \<and> m_views R' = m_views R
               \<and> (if dec_size_t (m_referenceCounter R ! i) = 0
                   then m_impl R' = tl (m_impl R) else m_impl R' = m_impl R)))"
proof -
  have general: "decreaseReferenceCount r i g = Inr g' \<and> queues g r = Some R \<longrightarrow>
          (\<exists>R'. queues g' r = Some R' \<and> m_views R' = m_views R
               \<and> (if dec_size_t (m_referenceCounter R ! i) = 0
                   then m_impl R' = tl (m_impl R) else m_impl R' = m_impl R))"
    using decreaseReferenceCount_removes_front_only by blast
  show ?thesis
  proof (cases "m_referenceCounter Q ! m_idx V = 1")
    case True
    from View_pop_evict[OF assms True] True general show ?thesis by simp
  next
    case False
    have "wf_queue h q Q" using assms by (blast dest: wf_registered)
    then have "0 < m_referenceCounter Q ! m_idx V" using assms(5) by (rule wf_queue_pos)
    with View_pop_keep[OF assms False] False general show ?thesis by simp
  qed
qed

text \<open>C1, witness: the only view of a queue pops the only element.\<close>

theorem pop_on_consistent_store_witness:
  "View_pop 1 single_heap = Inr (7, single_heap_popped)"
proof -
  have "queues single_heap 0 = Some \<lparr>m_impl = [7], m_referenceCounter = [1], m_views = {1}\<rparr>"
    and "views single_heap 1 = Some \<lparr>m_queue = Some 0, m_idx = 0\<rparr>"
    by (simp_all add: single_heap_def)
  from pop_on_consistent_store[OF wf_single_heap this(2) _ this(1), THEN conjunct1]
  show ?thesis
    by (simp add: single_heap_def single_heap_popped_def fun_eq_iff)
qed

text \<open>
  C1 as stated has the index of the popping view advanced by one and only the other
  views decremented. Here the popping view's index is 0 before the call and 0 after it.
\<close>

theorem pop_offset_counterexample:
  "View_pop 1 single_heap = Inr (7, single_heap_popped)
   \<and> idx_of single_heap 1 = 0 \<and> idx_of single_heap_popped 1 = 0"
  by (simp add: View_pop_def lock_def begin_of_def end_of_def decreaseReferenceCount_def
        Let_def dec_size_t_def single_heap_def single_heap_popped_def idx_of_def fun_eq_iff)

text \<open>
  C4. A \<open>push\<close> on a queue with no registered view leaves the queue, and with it the
  store, as it was, and returns normally; so does \<open>pushOutput\<close> of the producer that owns
  the queue.
\<close>

theorem push_without_views_discards:
  assumes "queues h q = Some Q" and "m_views Q = {}"
  shows "push val Q = Q \<and> on_queue q (push val) h = Inr h \<and> pushOutput val q h = Inr h"
proof -
  have p: "push val Q = Q" using assms(2) by (simp add: push_def)
  have "h\<lparr>queues := (queues h)(q \<mapsto> Q)\<rparr> = h" using assms(1) by (simp add: fun_upd_idem)
  then show ?thesis using p assms(1) by (simp add: on_queue_def pushOutput_def)
qed

text \<open>C4, witness: a push of 5 to a new queue.\<close>

theorem push_without_views_discards_witness:
  "push 5 empty_Queue = (empty_Queue :: nat Queue)
   \<and> on_queue 0 (push 5) unobserved_heap = Inr unobserved_heap
   \<and> pushOutput 5 0 unobserved_heap = Inr unobserved_heap"
  using push_without_views_discards[of unobserved_heap 0 empty_Queue 5]
  by (simp add: unobserved_heap_def empty_Queue_def)

text \<open>
  C7. Once the queue of a view is destroyed, \<open>pop\<close>, \<open>waitFor\<close>, \<open>size\<close>, \<open>clear\<close>,
  \<open>begin\<close> and \<open>end\<close> all fail with the dangling-view error. Nothing catches it: the
  \<open>pullInput\<close> of a consumer reading that view fails with it, so does the tick of the
  component, and so does the tick of a circuit that reaches that component.
\<close>

theorem destroyed_queue_raises_dangling_view:
  assumes "views h v = Some V" and "m_queue V = Some q"
  shows "View_pop v (destroy_queue q h) = Inl DanglingView
       \<and> View_waitFor d v (destroy_queue q h) = Inl DanglingView
       \<and> View_size v (destroy_queue q h) = Inl DanglingView
       \<and> View_clear v (destroy_queue q h) = Inl DanglingView
       \<and> View_begin v (destroy_queue q h) = Inl DanglingView
       \<and> View_end v (destroy_queue q h) = Inl DanglingView
       \<and> pullInput v (destroy_queue q h) = Inl DanglingView
       \<and> tick_consumer (pullInput v) impl (destroy_queue q h, u) = Inl DanglingView
       \<and> (Circuit_tick cs s = Inr (destroy_queue q h, u) \<longrightarrow>
            Circuit_tick (cs @ tick_consumer (pullInput v) impl # ds) s = Inl DanglingView)"
proof -
  have V: "views (destroy_queue q h) v = Some V" using assms(1) by (simp add: destroy_queue_def)
  have L: "lock (destroy_queue q h) V = None" using assms(2) by (simp add: lock_def destroy_queue_def)
  note d = dangling_ops[OF V L]
  have "Circuit_tick cs s = Inr (destroy_queue q h, u) \<longrightarrow>
            Circuit_tick (cs @ tick_consumer (pullInput v) impl # ds) s = Inl DanglingView"
    by (simp add: Circuit_tick_append d(8))
  then show ?thesis using d by simp
qed

text \<open>C7, witness: the view of the example store after queue 0 is destroyed.\<close>

theorem destroyed_queue_raises_dangling_view_witness:
  "View_pop 1 (destroy_queue 0 single_heap) = Inl DanglingView
   \<and> View_waitFor 10 1 (destroy_queue 0 single_heap) = Inl DanglingView
   \<and> View_size 1 (destroy_queue 0 single_heap) = Inl DanglingView
   \<and> View_clear 1 (destroy_queue 0 single_heap) = Inl DanglingView
   \<and> View_begin 1 (destroy_queue 0 single_heap) = Inl DanglingView
   \<and> View_end 1 (destroy_queue 0 single_heap) = Inl DanglingView
   \<and> pullInput 1 (destroy_queue 0 single_heap) = Inl DanglingView
   \<and> Circuit_tick ([] @ tick_consumer (pullInput 1) (\<lambda>x u. x # u) # [])
        (destroy_queue 0 single_heap, [])
      = Inl DanglingView"
proof -
  have a: "views single_heap 1 = Some \<lparr>m_queue = Some 0, m_idx = 0\<rparr>"
    by (simp add: single_heap_def)
  have b: "Circuit_tick [] (destroy_queue 0 single_heap, ([]::nat list))
             = Inr (destroy_queue 0 single_heap, [])" by simp
  from destroyed_queue_raises_dangling_view[OF a, of 0 10 "\<lambda>x u. x # u" "[]" "[]"
      "(destroy_queue 0 single_heap, [])" "[]"] b
  show ?thesis by simp
qed

text \<open>
  C10. Every operation on a default-constructed view fails with the same dangling-view
  error, and so does the tick of a consumer whose input was never set. Its destructor
  only removes the view; the unregistration that both assignments begin with does
  nothing, so that copy assignment over it is copy construction in its place and move
  assignment is its second half alone; and \<open>unregisterView\<close> does nothing for a view
  that is not in the set of registered views.
\<close>

theorem default_view_dangles:
  "View_pop v (View_default v h) = Inl DanglingView
   \<and> View_waitFor d v (View_default v h) = Inl DanglingView
   \<and> View_size v (View_default v h) = Inl DanglingView
   \<and> View_clear v (View_default v h) = Inl DanglingView
   \<and> View_begin v (View_default v h) = Inl DanglingView
   \<and> View_end v (View_default v h) = Inl DanglingView
   \<and> pullInput v (View_default v h) = Inl DanglingView
   \<and> tick_consumer (pullInput v) impl (View_default v h, u) = Inl DanglingView
   \<and> View_dtor v (View_default v h)
        = Inr ((View_default v h)\<lparr>views := (views (View_default v h))(v := None)\<rparr>)
   \<and> unregister_if_locked v (View_default v h) = Inr (View_default v h)
   \<and> View_copy_assign v other (View_default v h) = View_copy v other (View_default v h)
   \<and> View_move_assign v other (View_default v h)
        = (case views (View_default v h) other of
             None \<Rightarrow> Inl Undefined
           | Some W \<Rightarrow>
               register_if_locked v
                 ((View_default v h)\<lparr>views := (views (View_default v h))
                     (other \<mapsto> W\<lparr>m_queue := None\<rparr>,
                      v \<mapsto> \<lparr>m_queue = m_queue W, m_idx = m_idx W\<rparr>)\<rparr>))
   \<and> (queues h q = Some Q \<and> w \<notin> m_views Q \<longrightarrow> unregisterView q w h = Inr h)"
proof -
  have V: "views (View_default v h) v = Some \<lparr>m_queue = None, m_idx = 0\<rparr>"
    and L: "lock (View_default v h) \<lparr>m_queue = None, m_idx = 0\<rparr> = None"
    by (rule default_ops)+
  note d = dangling_ops[OF V L]
  have u: "unregister_if_locked v (View_default v h) = Inr (View_default v h)"
    by (simp add: unregister_if_locked_def default_ops)
  have dt: "View_dtor v (View_default v h)
        = Inr ((View_default v h)\<lparr>views := (views (View_default v h))(v := None)\<rparr>)"
    by (simp add: View_dtor_def u)
  have ca: "View_copy_assign v other (View_default v h) = View_copy v other (View_default v h)"
    by (simp add: View_copy_assign_def View_copy_def u)
  have ma: "View_move_assign v other (View_default v h)
        = (case views (View_default v h) other of
             None \<Rightarrow> Inl Undefined
           | Some W \<Rightarrow>
               register_if_locked v
                 ((View_default v h)\<lparr>views := (views (View_default v h))
                     (other \<mapsto> W\<lparr>m_queue := None\<rparr>,
                      v \<mapsto> \<lparr>m_queue = m_queue W, m_idx = m_idx W\<rparr>)\<rparr>))"
    by (simp add: View_move_assign_def u)
  have un: "queues h q = Some Q \<and> w \<notin> m_views Q \<longrightarrow> unregisterView q w h = Inr h"
    by (simp add: unregisterView_def)
  show ?thesis using d u dt ca ma un by simp
qed

text \<open>C10, witness: a default view at address 2 beside the example store.\<close>

theorem default_view_dangles_witness:
  "View_pop 2 (View_default 2 single_heap) = Inl DanglingView
   \<and> View_size 2 (View_default 2 single_heap) = Inl DanglingView
   \<and> View_dtor 2 (View_default 2 single_heap) = Inr single_heap
   \<and> View_copy_assign 2 1 (View_default 2 single_heap) = View_copy 2 1 (View_default 2 single_heap)
   \<and> unregisterView 0 2 single_heap = Inr single_heap"
proof -
  have q: "queues single_heap 0 = Some \<lparr>m_impl = [7], m_referenceCounter = [1], m_views = {1}\<rparr>
      \<and> 2 \<notin> m_views \<lparr>m_impl = [7::nat], m_referenceCounter = [1], m_views = {1}\<rparr>"
    by (simp add: single_heap_def)
  have e: "(View_default 2 single_heap)\<lparr>views := (views (View_default 2 single_heap))(2 := None)\<rparr>
        = single_heap"
    by (simp add: View_default_def single_heap_def fun_eq_iff)
  from default_view_dangles[of 2 single_heap 10 "\<lambda>x u. u" "()" 1 0
      "\<lparr>m_impl = [7], m_referenceCounter = [1], m_views = {1}\<rparr>" 2] q e
  show ?thesis by simp
qed

text \<open>
  C9. For a consumer with a fixed number of inputs, on a consistent store and with every
  input view attached to a live queue: \<open>size\<close> of each view is the length of the range
  it covers; if some view covers nothing, \<open>pullInput\<close> returns nothing and the store is
  the one it started from; if every view covers something, \<open>pullInput\<close> returns the first
  element of each range, in the order of the inputs, and each input view is left with the
  rest of its range, every other view with the range it had.
\<close>

theorem pullInputs_all_or_nothing:
  assumes "wf h" and "distinct ps" and "\<forall>p \<in> set ps. attached p h"
  shows "(\<forall>p \<in> set ps. View_size p h = Inr (length (covered p h)))
       \<and> ((\<exists>p \<in> set ps. covered p h = []) \<longrightarrow> pullInputs ps h = Inr (None, h))
       \<and> ((\<forall>p \<in> set ps. covered p h \<noteq> []) \<longrightarrow>
            (\<exists>h'. pullInputs ps h = Inr (Some (map (\<lambda>p. hd (covered p h)) ps), h')
                 \<and> wf h'
                 \<and> (\<forall>p \<in> set ps. covered p h' = tl (covered p h))
                 \<and> (\<forall>u. u \<notin> set ps \<longrightarrow> covered u h' = covered u h)))"
proof (intro conjI impI ballI)
  fix p assume "p \<in> set ps"
  with assms show "View_size p h = Inr (length (covered p h))"
    by (simp add: View_size_covered)
next
  assume "\<exists>p \<in> set ps. covered p h = []"
  then show "pullInputs ps h = Inr (None, h)"
    using allInputsReady_wf[OF assms(1,3)] by (auto simp: pullInputs_def)
next
  assume all: "\<forall>p \<in> set ps. covered p h \<noteq> []"
  from getInputs_wf[OF assms(1,2) all] obtain h' where
    g: "getInputs ps h = Inr (map (\<lambda>p. hd (covered p h)) ps, h')" and "wf h'"
    and "\<forall>p \<in> set ps. covered p h' = tl (covered p h)"
    and "\<forall>u. u \<notin> set ps \<longrightarrow> covered u h' = covered u h" by blast
  moreover have "pullInputs ps h = Inr (Some (map (\<lambda>p. hd (covered p h)) ps), h')"
    using allInputsReady_wf[OF assms(1,3)] all g by (simp add: pullInputs_def)
  ultimately show "\<exists>h'. pullInputs ps h = Inr (Some (map (\<lambda>p. hd (covered p h)) ps), h')
                 \<and> wf h'
                 \<and> (\<forall>p \<in> set ps. covered p h' = tl (covered p h))
                 \<and> (\<forall>u. u \<notin> set ps \<longrightarrow> covered u h' = covered u h)" by blast
qed

text \<open>
  C9, witness: the consumer with inputs at 3 and 4, first with queue 1 empty, then with
  an element in each queue.
\<close>

theorem pullInputs_all_or_nothing_witness:
  "pullInputs [3, 4] pair_heap = Inr (None, pair_heap)
   \<and> (\<exists>h'. pullInputs [3, 4] pair_heap_ready = Inr (Some [123, 5], h')
           \<and> covered 3 h' = [] \<and> covered 4 h' = [])"
  using pullInputs_all_or_nothing[OF wf_pair_heap, of "[3, 4]"]
    pullInputs_all_or_nothing[OF wf_pair_heap_ready, of "[3, 4]"]
  by (auto simp: pair_heap_facts)

text \<open>
  C5 (as amended). For a bus consumer on a consistent store, with its views distinct and
  attached: an attempt pops, in the order of the vector, from the views that have not yet
  contributed, up to the first of them that is not ready, and from no other view. If that
  run is all of them the attempt returns the gathered inputs, in order, and the
  accumulator is empty again; otherwise it returns nothing and the accumulator is longer
  by what was popped. Views that had contributed before are not popped again.
\<close>

theorem bus_pullInput_in_order:
  assumes "wf h" and "distinct (m_inputPipes c)"
    and "\<forall>p \<in> set (m_inputPipes c). attached p h"
    and "length (m_inputs c) \<le> length (m_inputPipes c)"
  shows "\<exists>h'. bus_pullInput c h =
            Inr (if ready_run c h = pending c
                 then Some (m_inputs c @ map (\<lambda>p. hd (covered p h)) (ready_run c h))
                 else None,
                 c\<lparr>m_inputs := if ready_run c h = pending c then []
                     else m_inputs c @ map (\<lambda>p. hd (covered p h)) (ready_run c h)\<rparr>,
                 h')
          \<and> wf h'
          \<and> (\<forall>p \<in> set (ready_run c h). covered p h' = tl (covered p h))
          \<and> (\<forall>u. u \<notin> set (ready_run c h) \<longrightarrow> covered u h' = covered u h)"
  using bus_pullInput_loop_wf[OF assms]
  unfolding bus_pullInput_def ready_run_def pending_def by blast

text \<open>
  C5, witness: the second and third attempts of the test \<open>consumer/bus\<close>: 123 alone
  gives nothing and is kept; 456 then completes the round with 123 and 456.
\<close>

theorem bus_pullInput_in_order_witness:
  "(\<exists>h'. bus_pullInput bus_start (bus_heap [123] []) = Inr (None, bus_start\<lparr>m_inputs := [123]\<rparr>, h')
         \<and> covered 11 h' = [] \<and> covered 12 h' = [])
   \<and> (\<exists>h'. bus_pullInput (bus_start\<lparr>m_inputs := [123]\<rparr>) (bus_heap [] [456])
            = Inr (Some [123, 456], bus_start, h')
         \<and> covered 11 h' = [] \<and> covered 12 h' = [])"
  using bus_pullInput_in_order[OF wf_bus_heap, of bus_start "[123]" "[]"]
    bus_pullInput_in_order[OF wf_bus_heap, of "bus_start\<lparr>m_inputs := [123]\<rparr>" "[]" "[456]"]
  by (auto simp: bus_heap_facts bus_start_def ready_run_def pending_def)

text \<open>
  C5 as stated has an attempt pop from any view that is ready and has not contributed.
  Here the first view covers nothing and the second covers 456: the attempt returns
  nothing and pops nothing, the second view included.
\<close>

theorem bus_pullInput_skips_ready_view_counterexample:
  "covered 11 (bus_heap [] [456]) = [] \<and> covered 12 (bus_heap [] [456]) = [456]
   \<and> bus_pullInput bus_start (bus_heap [] [456]) = Inr (None, bus_start, bus_heap [] [456])"
  by (simp add: bus_heap_facts)
     (simp add: bus_pullInput_def bus_start_def bus_heap_def bus_pullInput_loop.simps
        View_size_def lock_def begin_of_def end_of_def)

text \<open>
  C3. When the behaviour of a \<open>Producer<T>\<close> returns an absent \<open>std::optional<T>\<close>,
  \<open>pushOutput\<close> and with it the tick leave the store as it was: nothing is appended.
  When the element type is itself \<open>std::optional<T>\<close>, the absent value is pushed like
  any other: on a queue with a registered view it is appended, with the count of the
  registered views. A consumer whose view has an absent value at the front of its range
  pulls it as an input, and its tick calls the implementation with the absent value.
\<close>

theorem absent_optional_suppressed_or_delivered:
  fixes h :: "'a heap" and g :: "'b option heap"
  shows "pushOutput_optional None p h = Inr h
       \<and> tick_producer (\<lambda>u. (None, u)) (\<lambda>val. pushOutput_optional val p) (h, u) = Inr (h, u)
       \<and> (queues g q = Some Q \<and> m_views Q \<noteq> {} \<longrightarrow>
            pushOutput None q g
              = Inr (g\<lparr>queues := (queues g)(q \<mapsto>
                       Q\<lparr>m_impl := m_impl Q @ [None],
                         m_referenceCounter := m_referenceCounter Q @ [card (m_views Q)]\<rparr>)\<rparr>)
          \<and> tick_producer (\<lambda>u. (None, u)) (\<lambda>val. pushOutput val q) (g, u)
              = Inr (g\<lparr>queues := (queues g)(q \<mapsto>
                       Q\<lparr>m_impl := m_impl Q @ [None],
                         m_referenceCounter := m_referenceCounter Q @ [card (m_views Q)]\<rparr>)\<rparr>, u))
       \<and> (wf g \<and> covered v g = None # rest \<longrightarrow>
            (\<exists>g'. pullInput v g = Inr (Some None, g')
                 \<and> tick_consumer (pullInput v) impl (g, w) = Inr (g', impl None w)
                 \<and> covered v g' = rest))"
proof (intro conjI impI)
  show "pushOutput_optional None p h = Inr h" by (simp add: pushOutput_optional_def)
  show "tick_producer (\<lambda>u. (None, u)) (\<lambda>val. pushOutput_optional val p) (h, u) = Inr (h, u)"
    by (simp add: tick_producer_def pushOutput_optional_def)
next
  assume a: "queues g q = Some Q \<and> m_views Q \<noteq> {}"
  then show p: "pushOutput None q g
              = Inr (g\<lparr>queues := (queues g)(q \<mapsto>
                       Q\<lparr>m_impl := m_impl Q @ [None],
                         m_referenceCounter := m_referenceCounter Q @ [card (m_views Q)]\<rparr>)\<rparr>)"
    by (simp add: pushOutput_def on_queue_def push_def)
  then show "tick_producer (\<lambda>u. (None, u)) (\<lambda>val. pushOutput val q) (g, u)
              = Inr (g\<lparr>queues := (queues g)(q \<mapsto>
                       Q\<lparr>m_impl := m_impl Q @ [None],
                         m_referenceCounter := m_referenceCounter Q @ [card (m_views Q)]\<rparr>)\<rparr>, u)"
    by (simp add: tick_producer_def)
next
  assume a: "wf g \<and> covered v g = None # rest"
  then have ne: "covered v g \<noteq> []" and w: "wf g" by simp_all
  have att: "attached v g" using ne covered_not_attached by blast
  from pullInput_wf(2)[OF w att ne] a obtain g' where
    "pullInput v g = Inr (Some None, g')" "covered v g' = rest" by auto
  then show "\<exists>g'. pullInput v g = Inr (Some None, g')
                 \<and> tick_consumer (pullInput v) impl (g, w) = Inr (g', impl None w)
                 \<and> covered v g' = rest"
    by (simp add: tick_consumer_def)
qed

text \<open>
  C3, witness: the test \<open>producer/optional\<close>, followed by a consumer that logs what it
  is called with.
\<close>

theorem absent_optional_suppressed_or_delivered_witness:
  "tick_producer (\<lambda>u. (None, u)) (\<lambda>val. pushOutput_optional val 0) (plain_heap [], ())
     = Inr (plain_heap [], ())
   \<and> View_size 21 (plain_heap []) = Inr 0
   \<and> tick_producer (\<lambda>u. (None, u)) (\<lambda>val. pushOutput val 0) (optional_heap [], ())
     = Inr (optional_heap [None], ())
   \<and> (\<exists>g'. tick_consumer (pullInput 21) (\<lambda>x log. log @ [x]) (optional_heap [None], [])
              = Inr (g', [None])
          \<and> covered 21 g' = [])"
proof -
  have e: "(optional_heap [])\<lparr>queues := (queues (optional_heap []))(0 \<mapsto>
             \<lparr>m_impl = [], m_referenceCounter = map (\<lambda>x. 1) [], m_views = {21}\<rparr>
               \<lparr>m_impl := m_impl \<lparr>m_impl = [], m_referenceCounter = map (\<lambda>x. 1) [], m_views = {21}\<rparr> @ [None],
                m_referenceCounter := m_referenceCounter \<lparr>m_impl = [], m_referenceCounter = map (\<lambda>x. 1) [], m_views = {21}\<rparr> @ [card (m_views \<lparr>m_impl = ([]::nat option list), m_referenceCounter = map (\<lambda>x. 1) [], m_views = {21}\<rparr>)]\<rparr>)\<rparr>
           = optional_heap [None]"
    by (simp add: optional_heap_def)
  have s: "View_size 21 (plain_heap []) = Inr 0"
    using View_size_covered[OF wf_plain_heap plain_heap_facts(2), of "[]"]
    by (simp add: plain_heap_facts)
  note t = absent_optional_suppressed_or_delivered[where p = 0 and h = "plain_heap []"
      and u = "()" and q = 0 and v = 21 and rest = "[]" and impl = "\<lambda>x log. log @ [x]"
      and w = "[]"]
  from t[where g = "optional_heap []"
      and Q = "\<lparr>m_impl = [], m_referenceCounter = map (\<lambda>x. 1) [], m_views = {21}\<rparr>"]
    t[where g = "optional_heap [None]"
      and Q = "\<lparr>m_impl = [None], m_referenceCounter = map (\<lambda>x. 1) [None], m_views = {21}\<rparr>"]
  show ?thesis
    using s e by (simp add: optional_heap_facts wf_optional_heap) blast
qed

text \<open>
  C6 (as amended). \<open>view()\<close> registers a view whose index is the length of the queue, so
  it covers none of the elements already there, and it changes no other view; on a
  consistent store with no view yet at that address the store stays consistent. On a
  consistent store: a \<open>push\<close> on a queue with registered views appends the element, with
  the number of registered views as its count, at the end of the range of every view
  attached to that queue, and changes no other range, so a view made by \<open>view()\<close>
  afterwards does not cover it; a view that is move-constructed takes the registration of
  its source and covers what the source covered, whenever it is made, and the source
  covers nothing; \<open>pop\<close> returns the first element of the range of the view, leaves the
  rest, and changes the range of no other view. The ranges of two views of one queue are
  ends of the same sequence: one is a suffix of the other.
\<close>

theorem views_see_pushes_after_registration:
  "(queues h q = Some Q \<longrightarrow>
      (\<exists>h'. view q v h = Inr h'
           \<and> views h' v = Some \<lparr>m_queue = Some q, m_idx = length (m_impl Q)\<rparr>
           \<and> queues h' q = Some (Q\<lparr>m_views := insert v (m_views Q)\<rparr>)
           \<and> covered v h' = []
           \<and> (\<forall>u. u \<noteq> v \<longrightarrow> views h' u = views h u \<and> covered u h' = covered u h)
           \<and> (wf h \<and> unused v h \<longrightarrow> wf h')))
   \<and> (wf h \<and> queues h q = Some Q \<and> m_views Q \<noteq> {} \<longrightarrow>
      (\<exists>h'. on_queue q (push x) h = Inr h' \<and> wf h'
           \<and> queues h' q = Some (Q\<lparr>m_impl := m_impl Q @ [x],
                  m_referenceCounter := m_referenceCounter Q @ [card (m_views Q)]\<rparr>)
           \<and> views h' = views h
           \<and> (\<forall>u. covered u h' =
                 (if attached u h \<and> queue_of u h = Some q then covered u h @ [x]
                  else covered u h))))
   \<and> (wf h \<and> views h other = Some W \<and> unused v h \<longrightarrow>
      (\<exists>h'. View_move v other h = Inr h' \<and> wf h'
           \<and> covered v h' = covered other h \<and> covered other h' = []
           \<and> (\<forall>u. u \<noteq> v \<and> u \<noteq> other \<longrightarrow> covered u h' = covered u h)
           \<and> (\<forall>q Q. m_queue W = Some q \<and> queues h q = Some Q \<longrightarrow>
                 queues h' q = Some (Q\<lparr>m_views := insert v (m_views Q) - {other}\<rparr>))))
   \<and> (wf h \<and> covered p h \<noteq> [] \<longrightarrow>
      (\<exists>h'. View_pop p h = Inr (hd (covered p h), h') \<and> wf h'
           \<and> covered p h' = tl (covered p h)
           \<and> (\<forall>u. u \<noteq> p \<longrightarrow> covered u h' = covered u h)))
   \<and> (queue_of u h = queue_of p h \<longrightarrow>
        (\<exists>ys. covered u h = ys @ covered p h) \<or> (\<exists>ys. covered p h = ys @ covered u h))"
proof (intro conjI impI)
  assume Q: "queues h q = Some Q"
  let ?h' = "h\<lparr>views := (views h)(v \<mapsto> \<lparr>m_queue = Some q, m_idx = length (m_impl Q)\<rparr>),
                      queues := (queues h)(q \<mapsto> Q\<lparr>m_views := insert v (m_views Q)\<rparr>)\<rparr>"
  have "view q v h = Inr ?h'" by (rule view_eq[OF Q])
  moreover have "views ?h' v = Some \<lparr>m_queue = Some q, m_idx = length (m_impl Q)\<rparr>" by simp
  moreover have "queues ?h' q = Some (Q\<lparr>m_views := insert v (m_views Q)\<rparr>)" by simp
  moreover have "covered v ?h' = []" by (rule view_covered(1)[OF Q])
  moreover have "\<forall>u. u \<noteq> v \<longrightarrow> views ?h' u = views h u \<and> covered u ?h' = covered u h"
    using view_covered(2)[OF Q] by simp
  moreover have "wf h \<and> unused v h \<longrightarrow> wf ?h'" using wf_view[OF _ Q] by blast
  ultimately show "\<exists>h'. view q v h = Inr h'
           \<and> views h' v = Some \<lparr>m_queue = Some q, m_idx = length (m_impl Q)\<rparr>
           \<and> queues h' q = Some (Q\<lparr>m_views := insert v (m_views Q)\<rparr>)
           \<and> covered v h' = []
           \<and> (\<forall>u. u \<noteq> v \<longrightarrow> views h' u = views h u \<and> covered u h' = covered u h)
           \<and> (wf h \<and> unused v h \<longrightarrow> wf h')" by blast
next
  assume a: "wf h \<and> queues h q = Some Q \<and> m_views Q \<noteq> {}"
  let ?h' = "h\<lparr>queues := (queues h)(q \<mapsto> push x Q)\<rparr>"
  have "on_queue q (push x) h = Inr ?h'" using a by (simp add: on_queue_def)
  moreover have "wf ?h'" using a by (auto intro: wf_push)
  moreover have "queues ?h' q = Some (Q\<lparr>m_impl := m_impl Q @ [x],
                  m_referenceCounter := m_referenceCounter Q @ [card (m_views Q)]\<rparr>)"
    using a by (simp add: push_def)
  moreover have "views ?h' = views h" by simp
  moreover have "\<forall>u. covered u ?h' =
                 (if attached u h \<and> queue_of u h = Some q then covered u h @ [x]
                  else covered u h)"
  proof
    fix u
    from a have "wf h" "queues h q = Some Q" "m_views Q \<noteq> {}" by simp_all
    then show "covered u ?h' =
                 (if attached u h \<and> queue_of u h = Some q then covered u h @ [x]
                  else covered u h)" by (rule push_covered)
  qed
  ultimately show "\<exists>h'. on_queue q (push x) h = Inr h' \<and> wf h'
           \<and> queues h' q = Some (Q\<lparr>m_impl := m_impl Q @ [x],
                  m_referenceCounter := m_referenceCounter Q @ [card (m_views Q)]\<rparr>)
           \<and> views h' = views h
           \<and> (\<forall>u. covered u h' =
                 (if attached u h \<and> queue_of u h = Some q then covered u h @ [x]
                  else covered u h))" by blast
next
  assume "wf h \<and> views h other = Some W \<and> unused v h"
  then show "\<exists>h'. View_move v other h = Inr h' \<and> wf h'
           \<and> covered v h' = covered other h \<and> covered other h' = []
           \<and> (\<forall>u. u \<noteq> v \<and> u \<noteq> other \<longrightarrow> covered u h' = covered u h)
           \<and> (\<forall>q Q. m_queue W = Some q \<and> queues h q = Some Q \<longrightarrow>
                 queues h' q = Some (Q\<lparr>m_views := insert v (m_views Q) - {other}\<rparr>))"
    using View_move_wf[of h other W v] by blast
next
  assume "wf h \<and> covered p h \<noteq> []"
  then show "\<exists>h'. View_pop p h = Inr (hd (covered p h), h') \<and> wf h'
           \<and> covered p h' = tl (covered p h)
           \<and> (\<forall>u. u \<noteq> p \<longrightarrow> covered u h' = covered u h)"
    using pop_covered by blast
next
  assume "queue_of u h = queue_of p h"
  then show "(\<exists>ys. covered u h = ys @ covered p h) \<or> (\<exists>ys. covered p h = ys @ covered u h)"
    by (rule covered_same_order)
qed

text \<open>
  C6, witness: on the store where queue 0 holds 7 for the view at 1, \<open>view()\<close> makes a
  view at 2, with index 1, that covers nothing. A push of 8 then reaches both: the view at
  1 covers 7, 8 and the view at 2 covers 8, the end of it. The view at 1 pops 7, and both
  cover 8. A view move-constructed at 2 from the view at 1 covers 7 instead, and the view
  at 1 nothing.
\<close>

theorem views_see_pushes_after_registration_witness:
  "\<exists>h1 h2 h3 h4.
      view 0 2 single_heap = Inr h1 \<and> wf h1
    \<and> views h1 2 = Some \<lparr>m_queue = Some 0, m_idx = 1\<rparr>
    \<and> covered 1 h1 = [7] \<and> covered 2 h1 = []
    \<and> on_queue 0 (push 8) h1 = Inr h2 \<and> wf h2
    \<and> covered 1 h2 = [7, 8] \<and> covered 2 h2 = [8]
    \<and> queue_of 1 h2 = queue_of 2 h2 \<and> (\<exists>ys. covered 1 h2 = ys @ covered 2 h2)
    \<and> View_pop 1 h2 = Inr (7, h3) \<and> covered 1 h3 = [8] \<and> covered 2 h3 = [8]
    \<and> View_move 2 1 single_heap = Inr h4 \<and> wf h4
    \<and> covered 2 h4 = [7] \<and> covered 1 h4 = []"
proof -
  note t1 = views_see_pushes_after_registration[where h = single_heap and q = 0 and v = 2
      and other = 1 and x = 8 and p = 1 and u = 2
      and Q = "\<lparr>m_impl = [7], m_referenceCounter = [1], m_views = {1}\<rparr>"
      and W = "\<lparr>m_queue = Some 0, m_idx = 0\<rparr>"]
  from t1[THEN conjunct1] single_heap_facts wf_single_heap obtain h1 where
    v1: "view 0 2 single_heap = Inr h1" and w1: "wf h1"
    and vs2: "views h1 2 = Some \<lparr>m_queue = Some 0, m_idx = 1\<rparr>"
    and q1: "queues h1 0 = Some \<lparr>m_impl = [7], m_referenceCounter = [1], m_views = {2, 1}\<rparr>"
    and c2: "covered 2 h1 = []"
    and fr: "\<forall>u. u \<noteq> 2 \<longrightarrow> views h1 u = views single_heap u \<and> covered u h1 = covered u single_heap"
    by auto
  have vs1: "views h1 1 = Some \<lparr>m_queue = Some 0, m_idx = 0\<rparr>"
    using fr single_heap_facts(2) by simp
  have c1: "covered 1 h1 = [7]" using fr single_heap_facts(3) by simp
  have at: "attached 1 h1" "queue_of 1 h1 = Some 0" "attached 2 h1" "queue_of 2 h1 = Some 0"
    using vs1 vs2 q1 by (simp_all add: attached_def queue_of_def lock_def)
  note t2 = views_see_pushes_after_registration[where h = h1 and q = 0 and x = 8
      and Q = "\<lparr>m_impl = [7], m_referenceCounter = [1], m_views = {2, 1}\<rparr>"]
  from t2[THEN conjunct2, THEN conjunct1] w1 q1 obtain h2 where
    p2: "on_queue 0 (push 8) h1 = Inr h2" and w2: "wf h2"
    and vh2: "views h2 = views h1"
    and cv: "\<forall>u. covered u h2 =
                 (if attached u h1 \<and> queue_of u h1 = Some 0 then covered u h1 @ [8]
                  else covered u h1)"
    by auto
  have c12: "covered 1 h2 = [7, 8]" using cv at c1 by simp
  have c22: "covered 2 h2 = [8]" using cv at c2 by simp
  have qo: "queue_of 1 h2 = queue_of 2 h2" using at vh2 by (simp add: queue_of_def)
  note t3 = views_see_pushes_after_registration[where h = h2 and p = 2 and u = 1]
  from t3[THEN conjunct2, THEN conjunct2, THEN conjunct2, THEN conjunct2] qo
  have sf: "\<exists>ys. covered 1 h2 = ys @ covered 2 h2" using c12 c22 by auto
  note t3 = views_see_pushes_after_registration[where h = h2 and p = 1]
  from t3[THEN conjunct2, THEN conjunct2, THEN conjunct2, THEN conjunct1] w2 c12
  obtain h3 where p3: "View_pop 1 h2 = Inr (7, h3)"
    and c13: "covered 1 h3 = [8]" and c23: "covered 2 h3 = [8]"
    using c22 by auto
  from t1[THEN conjunct2, THEN conjunct2, THEN conjunct1] single_heap_facts wf_single_heap
  obtain h4 where m4: "View_move 2 1 single_heap = Inr h4" and w4: "wf h4"
    and c24: "covered 2 h4 = [7]" and c14: "covered 1 h4 = []"
    by auto
  from v1 w1 vs2 c1 c2 p2 w2 c12 c22 qo sf p3 c13 c23 m4 w4 c24 c14 show ?thesis by blast
qed

text \<open>
  C6 as stated has no view registered after a push observe the pushed element. Here 7 is
  pushed while only the view at 1 is registered. The view at 2 is move-constructed from
  it afterwards: \<open>swapView\<close> registers it in place of the view at 1, and it pops 7.
\<close>

theorem view_registered_after_push_counterexample:
  "view 0 1 unobserved_heap = Inr registered_heap
   \<and> on_queue 0 (push 7) registered_heap = Inr single_heap
   \<and> queues single_heap 0 = Some \<lparr>m_impl = [7], m_referenceCounter = [1], m_views = {1}\<rparr>
   \<and> View_move 2 1 single_heap = Inr moved_heap
   \<and> queues moved_heap 0 = Some \<lparr>m_impl = [7], m_referenceCounter = [1], m_views = {2}\<rparr>
   \<and> View_pop 2 moved_heap = Inr (7, moved_heap_popped)"
  by (simp add: view_def View_of_Queue_def on_queue_def registerView_def push_def View_move_def
        swapView_def View_pop_def lock_def begin_of_def end_of_def decreaseReferenceCount_def
        Let_def dec_size_t_def unobserved_heap_def registered_heap_def single_heap_def
        moved_heap_def moved_heap_popped_def empty_Queue_def fun_eq_iff insert_Diff_if)

text \<open>
  C2, at the input where the code fails. The view at 1 covers the element 7 and is copied
  to a view at 2; the copy is registered, but the count of 7 stays 1. Both views cover 7.
  When the original pops it the slot is evicted and the index of the copy, which was 0,
  wraps to \<open>SIZE_MAX\<close>: the copy has skipped 7, and its \<open>size\<close> and \<open>pop\<close> are undefined
  from then on.
\<close>

theorem copy_skips_element:
  "View_copy 2 1 single_heap = Inr copied_heap
   \<and> covered 1 copied_heap = [7] \<and> covered 2 copied_heap = [7]
   \<and> View_pop 1 copied_heap = Inr (7, copied_heap_popped)
   \<and> covered 2 copied_heap_popped = []
   \<and> views copied_heap_popped 2 = Some \<lparr>m_queue = Some 0, m_idx = SIZE_MAX\<rparr>
   \<and> View_size 2 copied_heap_popped = Inl Undefined
   \<and> View_pop 2 copied_heap_popped = Inl Undefined"
  by (simp add: View_copy_def register_if_locked_def on_queue_def registerView_def
        View_pop_def View_size_def lock_def begin_of_def end_of_def decreaseReferenceCount_def
        Let_def dec_size_t_def covered_def single_heap_def copied_heap_def
        copied_heap_popped_def fun_eq_iff SIZE_MAX_pos insert_commute)

text \<open>
  C8. For a bus producer whose queues are distinct and alive: \<open>getOutputPipe(idx)\<close>
  leaves the vector with \<open>max (length, idx + 1)\<close> queues, the old ones first, and returns a
  view that is registered with queue \<open>idx\<close>, has the length of that queue as its index and
  covers nothing; a consistent store stays consistent. \<open>pushOutput\<close> of a group pushes
  element \<open>k\<close> to the queue of pipe \<open>k\<close>, and for a group of optionals only where the
  element is present; the pipes beyond the group keep their queues as they were, the views
  are untouched, and queues made for a longer group are empty. On a consistent store,
  element \<open>k\<close> is thereby appended to the range of every view on pipe \<open>k\<close>, and no
  other range changes. However often a producer of a group that does not reach pipe \<open>k\<close>
  ticks, the queue of pipe \<open>k\<close> and the ranges of its views stay as they were. The view
  that \<open>getOutputPipe(idx)\<close> returns covers, after the next group, element \<open>idx\<close> of
  the group if there is one and it is present, and \<open>pop\<close> returns it; otherwise it covers
  nothing.
\<close>

theorem bus_producer_routes_by_index:
  assumes "pipes_ok ps h"
  shows "(\<exists>ps' h' Q'. bus_getOutputPipe idx v ps h = Inr (ps', h')
            \<and> length ps' = max (length ps) (Suc idx) \<and> take (length ps) ps' = ps
            \<and> pipes_ok ps' h'
            \<and> queues h' (ps' ! idx) = Some Q' \<and> v \<in> m_views Q'
            \<and> views h' v = Some \<lparr>m_queue = Some (ps' ! idx), m_idx = length (m_impl Q')\<rparr>
            \<and> queue_of v h' = Some (ps' ! idx) \<and> attached v h' \<and> covered v h' = []
            \<and> (wf h \<and> unused v h \<longrightarrow> wf h'))
       \<and> (\<exists>ps' h'. bus_pushOutput vals ps h = Inr (ps', h')
            \<and> take (length ps) ps' = ps \<and> views h' = views h
            \<and> (\<forall>k < length ps. queues h' (ps ! k)
                   = map_option (\<lambda>Q. if k < length vals then push (vals ! k) Q else Q)
                       (queues h (ps ! k)))
            \<and> (\<forall>k. length ps \<le> k \<and> k < length ps' \<longrightarrow> queues h' (ps' ! k) = Some empty_Queue)
            \<and> (length vals \<le> length ps \<longrightarrow> ps' = ps)
            \<and> (wf h \<longrightarrow> wf h'
                 \<and> (\<forall>k < length ps. \<forall>u. queue_of u h = Some (ps ! k) \<longrightarrow>
                       covered u h' = covered u h @ (if k < length vals then [vals ! k] else []))
                 \<and> (\<forall>u. (\<forall>k < length ps. queue_of u h \<noteq> Some (ps ! k)) \<longrightarrow>
                       covered u h' = covered u h)))
       \<and> (\<exists>ps' h'. bus_pushOutput_optional ovals ps h = Inr (ps', h')
            \<and> take (length ps) ps' = ps \<and> views h' = views h
            \<and> (\<forall>k < length ps. queues h' (ps ! k)
                   = map_option (\<lambda>Q. if k < length ovals
                                       then (case ovals ! k of None \<Rightarrow> Q | Some x \<Rightarrow> push x Q)
                                       else Q)
                       (queues h (ps ! k)))
            \<and> (\<forall>k. length ps \<le> k \<and> k < length ps' \<longrightarrow> queues h' (ps' ! k) = Some empty_Queue)
            \<and> (length ovals \<le> length ps \<longrightarrow> ps' = ps)
            \<and> (wf h \<longrightarrow> wf h'
                 \<and> (\<forall>k < length ps. \<forall>u. queue_of u h = Some (ps ! k) \<longrightarrow>
                       covered u h' = covered u h
                         @ (if k < length ovals
                            then (case ovals ! k of None \<Rightarrow> [] | Some x \<Rightarrow> [x]) else []))
                 \<and> (\<forall>u. (\<forall>k < length ps. queue_of u h \<noteq> Some (ps ! k)) \<longrightarrow>
                       covered u h' = covered u h)))
       \<and> (length vals \<le> k \<and> k < length ps \<longrightarrow>
            (\<exists>h'. tick_times n (tick_producer (\<lambda>u. (vals, u))
                       (\<lambda>out m. bus_pushOutput out (fst m) (snd m))) ((ps, h), u)
                     = Inr ((ps, h'), u)
                 \<and> views h' = views h \<and> queues h' (ps ! k) = queues h (ps ! k)
                 \<and> (\<forall>w. queue_of w h = Some (ps ! k) \<longrightarrow> covered w h' = covered w h)))
       \<and> (wf h \<and> unused v h \<longrightarrow>
            (\<exists>ps' h'. bus_getOutputPipe idx v ps h = Inr (ps', h') \<and> wf h'
               \<and> (\<exists>ps'' h''. bus_pushOutput vals ps' h' = Inr (ps'', h'') \<and> wf h''
                     \<and> covered v h'' = (if idx < length vals then [vals ! idx] else [])
                     \<and> (idx < length vals \<longrightarrow>
                          (\<exists>h3. View_pop v h'' = Inr (vals ! idx, h3))))
               \<and> (\<exists>ps'' h''. bus_pushOutput_optional ovals ps' h' = Inr (ps'', h'') \<and> wf h''
                     \<and> covered v h'' = (if idx < length ovals
                                         then (case ovals ! idx of None \<Rightarrow> [] | Some x \<Rightarrow> [x])
                                         else []))))"
proof (intro conjI impI)
  show "\<exists>ps' h' Q'. bus_getOutputPipe idx v ps h = Inr (ps', h')
            \<and> length ps' = max (length ps) (Suc idx) \<and> take (length ps) ps' = ps
            \<and> pipes_ok ps' h'
            \<and> queues h' (ps' ! idx) = Some Q' \<and> v \<in> m_views Q'
            \<and> views h' v = Some \<lparr>m_queue = Some (ps' ! idx), m_idx = length (m_impl Q')\<rparr>
            \<and> queue_of v h' = Some (ps' ! idx) \<and> attached v h' \<and> covered v h' = []
            \<and> (wf h \<and> unused v h \<longrightarrow> wf h')"
    by (rule bus_getOutputPipe_registers[OF assms])
  from bus_pushOutput_routes[OF assms, of vals] obtain ps' h' where
    r: "bus_pushOutput vals ps h = Inr (ps', h')"
    and a: "take (length ps) ps' = ps" "views h' = views h"
      "\<forall>k < length ps. queues h' (ps ! k)
                  = map_option (routed (map Some vals) k) (queues h (ps ! k))"
      "\<forall>k. length ps \<le> k \<and> k < length ps' \<longrightarrow> queues h' (ps' ! k) = Some empty_Queue"
      "length vals \<le> length ps \<longrightarrow> ps' = ps"
    by blast
  have a3: "\<forall>k < length ps. queues h' (ps ! k)
                   = map_option (\<lambda>Q. if k < length vals then push (vals ! k) Q else Q)
                       (queues h (ps ! k))"
    using a(3) unfolding routed_map_Some .
  have b: "wf h \<longrightarrow> wf h'
                 \<and> (\<forall>k < length ps. \<forall>u. queue_of u h = Some (ps ! k) \<longrightarrow>
                       covered u h' = covered u h @ (if k < length vals then [vals ! k] else []))
                 \<and> (\<forall>u. (\<forall>k < length ps. queue_of u h \<noteq> Some (ps ! k)) \<longrightarrow>
                       covered u h' = covered u h)"
  proof
    assume w: "wf h"
    from bus_pushOutput_covered[OF assms w, of vals] r
    show "wf h'
                 \<and> (\<forall>k < length ps. \<forall>u. queue_of u h = Some (ps ! k) \<longrightarrow>
                       covered u h' = covered u h @ (if k < length vals then [vals ! k] else []))
                 \<and> (\<forall>u. (\<forall>k < length ps. queue_of u h \<noteq> Some (ps ! k)) \<longrightarrow>
                       covered u h' = covered u h)"
      by auto
  qed
  from r a(1,2) a3 a(4,5) b
  show "\<exists>ps' h'. bus_pushOutput vals ps h = Inr (ps', h')
            \<and> take (length ps) ps' = ps \<and> views h' = views h
            \<and> (\<forall>k < length ps. queues h' (ps ! k)
                   = map_option (\<lambda>Q. if k < length vals then push (vals ! k) Q else Q)
                       (queues h (ps ! k)))
            \<and> (\<forall>k. length ps \<le> k \<and> k < length ps' \<longrightarrow> queues h' (ps' ! k) = Some empty_Queue)
            \<and> (length vals \<le> length ps \<longrightarrow> ps' = ps)
            \<and> (wf h \<longrightarrow> wf h'
                 \<and> (\<forall>k < length ps. \<forall>u. queue_of u h = Some (ps ! k) \<longrightarrow>
                       covered u h' = covered u h @ (if k < length vals then [vals ! k] else []))
                 \<and> (\<forall>u. (\<forall>k < length ps. queue_of u h \<noteq> Some (ps ! k)) \<longrightarrow>
                       covered u h' = covered u h))"
    by blast
  have ro: "\<And>k. routed ovals k
               = (\<lambda>Q. if k < length ovals
                        then (case ovals ! k of None \<Rightarrow> Q | Some x \<Rightarrow> push x Q) else Q)"
    by (simp add: fun_eq_iff routed_def)
  from bus_pushOutput_optional_routes[OF assms, of ovals] obtain ps2 h2 where
    r2: "bus_pushOutput_optional ovals ps h = Inr (ps2, h2)"
    and c: "take (length ps) ps2 = ps" "views h2 = views h"
      "\<forall>k < length ps. queues h2 (ps ! k) = map_option (routed ovals k) (queues h (ps ! k))"
      "\<forall>k. length ps \<le> k \<and> k < length ps2 \<longrightarrow> queues h2 (ps2 ! k) = Some empty_Queue"
      "length ovals \<le> length ps \<longrightarrow> ps2 = ps"
    by blast
  have c3: "\<forall>k < length ps. queues h2 (ps ! k)
                   = map_option (\<lambda>Q. if k < length ovals
                                       then (case ovals ! k of None \<Rightarrow> Q | Some x \<Rightarrow> push x Q)
                                       else Q)
                       (queues h (ps ! k))"
    using c(3) unfolding ro .
  have d: "wf h \<longrightarrow> wf h2
                 \<and> (\<forall>k < length ps. \<forall>u. queue_of u h = Some (ps ! k) \<longrightarrow>
                       covered u h2 = covered u h
                         @ (if k < length ovals
                            then (case ovals ! k of None \<Rightarrow> [] | Some x \<Rightarrow> [x]) else []))
                 \<and> (\<forall>u. (\<forall>k < length ps. queue_of u h \<noteq> Some (ps ! k)) \<longrightarrow>
                       covered u h2 = covered u h)"
  proof
    assume w: "wf h"
    from bus_pushOutput_optional_covered[OF assms w, of ovals] r2
    show "wf h2
                 \<and> (\<forall>k < length ps. \<forall>u. queue_of u h = Some (ps ! k) \<longrightarrow>
                       covered u h2 = covered u h
                         @ (if k < length ovals
                            then (case ovals ! k of None \<Rightarrow> [] | Some x \<Rightarrow> [x]) else []))
                 \<and> (\<forall>u. (\<forall>k < length ps. queue_of u h \<noteq> Some (ps ! k)) \<longrightarrow>
                       covered u h2 = covered u h)"
      by auto
  qed
  from r2 c(1,2) c3 c(4,5) d
  show "\<exists>ps' h'. bus_pushOutput_optional ovals ps h = Inr (ps', h')
            \<and> take (length ps) ps' = ps \<and> views h' = views h
            \<and> (\<forall>k < length ps. queues h' (ps ! k)
                   = map_option (\<lambda>Q. if k < length ovals
                                       then (case ovals ! k of None \<Rightarrow> Q | Some x \<Rightarrow> push x Q)
                                       else Q)
                       (queues h (ps ! k)))
            \<and> (\<forall>k. length ps \<le> k \<and> k < length ps' \<longrightarrow> queues h' (ps' ! k) = Some empty_Queue)
            \<and> (length ovals \<le> length ps \<longrightarrow> ps' = ps)
            \<and> (wf h \<longrightarrow> wf h'
                 \<and> (\<forall>k < length ps. \<forall>u. queue_of u h = Some (ps ! k) \<longrightarrow>
                       covered u h' = covered u h
                         @ (if k < length ovals
                            then (case ovals ! k of None \<Rightarrow> [] | Some x \<Rightarrow> [x]) else []))
                 \<and> (\<forall>u. (\<forall>k < length ps. queue_of u h \<noteq> Some (ps ! k)) \<longrightarrow>
                       covered u h' = covered u h))"
    by blast
next
  assume "length vals \<le> k \<and> k < length ps"
  then obtain h' where
    t: "tick_times n (tick_producer (\<lambda>u. (vals, u))
                       (\<lambda>out m. bus_pushOutput out (fst m) (snd m))) ((ps, h), u)
                     = Inr ((ps, h'), u)"
    and vs: "views h' = views h" and qs: "queues h' (ps ! k) = queues h (ps ! k)"
    using unmatched_pipe_stays_empty[OF assms, of vals k n u] by blast
  have "\<forall>w. queue_of w h = Some (ps ! k) \<longrightarrow> covered w h' = covered w h"
    using unmatched_pipe_covered[OF vs qs] by blast
  with t vs qs
  show "\<exists>h'. tick_times n (tick_producer (\<lambda>u. (vals, u))
                       (\<lambda>out m. bus_pushOutput out (fst m) (snd m))) ((ps, h), u)
                     = Inr ((ps, h'), u)
                 \<and> views h' = views h \<and> queues h' (ps ! k) = queues h (ps ! k)
                 \<and> (\<forall>w. queue_of w h = Some (ps ! k) \<longrightarrow> covered w h' = covered w h)"
    by blast
next
  assume "wf h \<and> unused v h"
  then show "\<exists>ps' h'. bus_getOutputPipe idx v ps h = Inr (ps', h') \<and> wf h'
               \<and> (\<exists>ps'' h''. bus_pushOutput vals ps' h' = Inr (ps'', h'') \<and> wf h''
                     \<and> covered v h'' = (if idx < length vals then [vals ! idx] else [])
                     \<and> (idx < length vals \<longrightarrow>
                          (\<exists>h3. View_pop v h'' = Inr (vals ! idx, h3))))
               \<and> (\<exists>ps'' h''. bus_pushOutput_optional ovals ps' h' = Inr (ps'', h'') \<and> wf h''
                     \<and> covered v h'' = (if idx < length ovals
                                         then (case ovals ! idx of None \<Rightarrow> [] | Some x \<Rightarrow> [x])
                                         else []))"
    using bus_getOutputPipe_then_push[OF assms, of v idx vals ovals] by blast
qed

text \<open>
  C8, witness: on a new producer, the view of \<open>getOutputPipe(0)\<close> pops 1 after the group
  1, 2; \<open>getOutputPipe(2)\<close> makes three queues and its view covers nothing after that
  group. Without any view, the group 1, 2 makes two queues and leaves them empty. The
  three calls of the test \<open>producer/bus\<close> lead to three views; the group 1, 2
  reaches the views of pipes 0 and 1, the group of optionals 1, absent reaches the view of
  pipe 0 only, and after a hundred ticks the view of pipe 2 still covers nothing.
\<close>

theorem bus_producer_routes_by_index_witness:
  "(\<exists>ps1 h1 ps2 h2 h3. bus_getOutputPipe 0 31 [] (empty_heap :: nat heap) = Inr (ps1, h1)
        \<and> wf h1 \<and> bus_pushOutput [1, 2] ps1 h1 = Inr (ps2, h2)
        \<and> covered 31 h2 = [1] \<and> View_pop 31 h2 = Inr (1, h3))
   \<and> (\<exists>ps1 h1 ps2 h2. bus_getOutputPipe 2 33 [] (empty_heap :: nat heap) = Inr (ps1, h1)
        \<and> length ps1 = 3 \<and> bus_pushOutput [1, 2] ps1 h1 = Inr (ps2, h2)
        \<and> covered 33 h2 = [])
   \<and> (\<exists>h'. bus_pushOutput [1, 2] [] (empty_heap :: nat heap) = Inr ([0, 1], h')
        \<and> queues h' 0 = Some empty_Queue \<and> queues h' 1 = Some empty_Queue)
   \<and> bus_getOutputPipe 0 31 [] empty_heap = Inr ([0], bus_out_heap1)
   \<and> bus_getOutputPipe 1 32 [0] bus_out_heap1 = Inr ([0, 1], bus_out_heap2)
   \<and> bus_getOutputPipe 2 33 [0, 1] bus_out_heap2 = Inr ([0, 1, 2], bus_out_heap [] [] [])
   \<and> (\<exists>h'. bus_pushOutput [1, 2] [0, 1, 2] (bus_out_heap [] [] []) = Inr ([0, 1, 2], h')
        \<and> wf h' \<and> covered 31 h' = [1] \<and> covered 32 h' = [2] \<and> covered 33 h' = [])
   \<and> (\<exists>h'. bus_pushOutput_optional [Some 1, None] [0, 1, 2] (bus_out_heap [] [] [])
              = Inr ([0, 1, 2], h')
        \<and> wf h' \<and> covered 31 h' = [1] \<and> covered 32 h' = [] \<and> covered 33 h' = [])
   \<and> (\<exists>h'. tick_times 100 (tick_producer (\<lambda>u. ([1, 2], u))
                  (\<lambda>out m. bus_pushOutput out (fst m) (snd m)))
              (([0, 1, 2], bus_out_heap [] [] []), ())
            = Inr (([0, 1, 2], h'), ())
        \<and> covered 33 h' = [])"
proof -
  note e = bus_producer_routes_by_index[OF bus_out_heap_facts(1), where idx = 0 and v = 31
      and vals = "[1, 2]" and ovals = "[Some 1, None]"]
  from e[THEN conjunct2, THEN conjunct2, THEN conjunct2, THEN conjunct2]
    wf_empty_heap bus_out_heap_queue_of(4)
  have A: "\<exists>ps1 h1 ps2 h2 h3. bus_getOutputPipe 0 31 [] (empty_heap :: nat heap) = Inr (ps1, h1)
        \<and> wf h1 \<and> bus_pushOutput [1, 2] ps1 h1 = Inr (ps2, h2)
        \<and> covered 31 h2 = [1] \<and> View_pop 31 h2 = Inr (1, h3)"
    by (simp del: ex_simps) blast
  note f = bus_producer_routes_by_index[OF bus_out_heap_facts(1), where idx = 2 and v = 33
      and vals = "[1, 2]" and ovals = "[]"]
  have u33: "unused 33 (empty_heap :: nat heap)" by (simp add: unused_def empty_heap_def)
  from f[THEN conjunct1] obtain ps1 h1 where
    g1: "bus_getOutputPipe 2 33 [] (empty_heap :: nat heap) = Inr (ps1, h1)"
    and l1: "length ps1 = 3" by auto
  from f[THEN conjunct2, THEN conjunct2, THEN conjunct2, THEN conjunct2] wf_empty_heap u33 g1
  obtain ps2 h2 where "bus_pushOutput [1, 2] ps1 h1 = Inr (ps2, h2)" "covered 33 h2 = []"
    by auto
  with g1 l1
  have B: "\<exists>ps1 h1 ps2 h2. bus_getOutputPipe 2 33 [] (empty_heap :: nat heap) = Inr (ps1, h1)
        \<and> length ps1 = 3 \<and> bus_pushOutput [1, 2] ps1 h1 = Inr (ps2, h2)
        \<and> covered 33 h2 = []"
    by blast
  from f[THEN conjunct2, THEN conjunct1] obtain ps5 h5 where
    g5: "bus_pushOutput [1, 2] [] (empty_heap :: nat heap) = Inr (ps5, h5)"
    and n5: "\<forall>k. length ([] :: nat list) \<le> k \<and> k < length ps5 \<longrightarrow>
               queues h5 (ps5 ! k) = Some empty_Queue"
    by blast
  have "\<exists>H. bus_pushOutput [1, 2] [] (empty_heap :: nat heap) = Inr ([0, 1], H)"
    by (simp add: bus_pushOutput_def bus_pushOutput_at_def getOutputPipeSource_def
          getOutputPipeSource_loop.simps make_def on_queue_def empty_heap_def)
  with g5 have p5: "ps5 = [0, 1]" by auto
  have "queues h5 0 = Some empty_Queue" "queues h5 1 = Some empty_Queue"
    using n5[rule_format, of 0] n5[rule_format, of 1] by (simp_all add: p5)
  with g5 p5
  have G: "\<exists>h'. bus_pushOutput [1, 2] [] (empty_heap :: nat heap) = Inr ([0, 1], h')
        \<and> queues h' 0 = Some empty_Queue \<and> queues h' 1 = Some empty_Queue"
    by blast
  note b = bus_producer_routes_by_index[OF bus_out_heap_facts(4), where xs1 = "[]"
      and ys1 = "[]" and zs1 = "[]" and idx = 0 and v = 31
      and vals = "[1, 2]" and ovals = "[Some 1, None]" and k = 2 and n = 100 and u = "()"]
  note w0 = wf_bus_out_heap[of "[]" "[]" "[]"]
  from b[THEN conjunct2, THEN conjunct1] w0 obtain ps' h' where
    r: "bus_pushOutput [1, 2] [0, 1, 2] (bus_out_heap [] [] []) = Inr (ps', h')"
    and same: "length [1::nat, 2] \<le> length [0::nat, 1, 2] \<longrightarrow> ps' = [0, 1, 2]"
    and w': "wf h'"
    and cv: "\<forall>k < length [0::nat, 1, 2]. \<forall>u.
               queue_of u (bus_out_heap [] [] []) = Some ([0, 1, 2] ! k) \<longrightarrow>
               covered u h' = covered u (bus_out_heap [] [] [])
                                @ (if k < length [1::nat, 2] then [[1, 2] ! k] else [])"
    by blast
  have p: "ps' = [0, 1, 2]" using same by simp
  have c31: "covered 31 h' = [1]"
    using cv[rule_format, of 0 31] by (simp add: bus_out_heap_queue_of bus_out_heap_facts)
  have c32: "covered 32 h' = [2]"
    using cv[rule_format, of 1 32] by (simp add: bus_out_heap_queue_of bus_out_heap_facts)
  have c33: "covered 33 h' = []"
    using cv[rule_format, of 2 33] by (simp add: bus_out_heap_queue_of bus_out_heap_facts)
  have D: "\<exists>h'. bus_pushOutput [1, 2] [0, 1, 2] (bus_out_heap [] [] []) = Inr ([0, 1, 2], h')
        \<and> wf h' \<and> covered 31 h' = [1] \<and> covered 32 h' = [2] \<and> covered 33 h' = []"
    using r p w' c31 c32 c33 by blast
  from b[THEN conjunct2, THEN conjunct2, THEN conjunct1] w0 obtain ps3 h3 where
    ro: "bus_pushOutput_optional [Some 1, None] [0, 1, 2] (bus_out_heap [] [] []) = Inr (ps3, h3)"
    and sameo: "length [Some (1::nat), None] \<le> length [0::nat, 1, 2] \<longrightarrow> ps3 = [0, 1, 2]"
    and w3: "wf h3"
    and co: "\<forall>k < length [0::nat, 1, 2]. \<forall>u.
               queue_of u (bus_out_heap [] [] []) = Some ([0, 1, 2] ! k) \<longrightarrow>
               covered u h3 = covered u (bus_out_heap [] [] [])
                                @ (if k < length [Some (1::nat), None]
                                   then (case [Some 1, None] ! k of None \<Rightarrow> [] | Some x \<Rightarrow> [x])
                                   else [])"
    by blast
  have po: "ps3 = [0, 1, 2]" using sameo by simp
  have o31: "covered 31 h3 = [1]"
    using co[rule_format, of 0 31] by (simp add: bus_out_heap_queue_of bus_out_heap_facts)
  have o32: "covered 32 h3 = []"
    using co[rule_format, of 1 32] by (simp add: bus_out_heap_queue_of bus_out_heap_facts)
  have o33: "covered 33 h3 = []"
    using co[rule_format, of 2 33] by (simp add: bus_out_heap_queue_of bus_out_heap_facts)
  have E: "\<exists>h'. bus_pushOutput_optional [Some 1, None] [0, 1, 2] (bus_out_heap [] [] [])
              = Inr ([0, 1, 2], h')
        \<and> wf h' \<and> covered 31 h' = [1] \<and> covered 32 h' = [] \<and> covered 33 h' = []"
    using ro po w3 o31 o32 o33 by blast
  have "length [1::nat, 2] \<le> 2 \<and> 2 < length [0::nat, 1, 2]" by simp
  with b[THEN conjunct2, THEN conjunct2, THEN conjunct2, THEN conjunct1] obtain h4 where
    t: "tick_times 100 (tick_producer (\<lambda>u. ([1, 2], u))
                  (\<lambda>out m. bus_pushOutput out (fst m) (snd m)))
              (([0, 1, 2], bus_out_heap [] [] []), ())
            = Inr (([0, 1, 2], h4), ())"
    and c4: "\<forall>w. queue_of w (bus_out_heap [] [] []) = Some ([0, 1, 2] ! 2) \<longrightarrow>
               covered w h4 = covered w (bus_out_heap [] [] [])"
    by blast
  have "covered 33 h4 = []"
    using c4[rule_format, of 33] by (simp add: bus_out_heap_queue_of bus_out_heap_facts)
  with t have F: "\<exists>h'. tick_times 100 (tick_producer (\<lambda>u. ([1, 2], u))
                  (\<lambda>out m. bus_pushOutput out (fst m) (snd m)))
              (([0, 1, 2], bus_out_heap [] [] []), ())
            = Inr (([0, 1, 2], h'), ())
        \<and> covered 33 h' = []" by blast
  from A B G bus_producer_test(1,2,3) D E F show ?thesis by blast
qed

end
